theory Spec2Isabelle
  imports Main
begin

section \<open>JavaScript values\<close>

text \<open>
  The verifier of \<^verbatim>\<open>lib/verify-bak.js\<close> (the \<^verbatim>\<open>Verifier\<close> class and its helpers)
  works on the values \<^verbatim>\<open>JSON.parse\<close> returns. A parsed object is an association list
  in the order of \<^verbatim>\<open>Object.keys\<close>; the value \<^verbatim>\<open>undefined\<close> is \<open>None\<close> of
  \<open>json option\<close>. Of a number the code only asks whether it is \<^verbatim>\<open>-1\<close>, \<^verbatim>\<open>-2\<close> or
  zero, and for its string: \<open>JNum n\<close> is a number whose value is the integer \<open>n\<close>,
  \<open>JNonInt s\<close> a number whose value is not an integer (a fraction, or an infinity
  from overflow), given by the string \<open>s\<close> it converts to. Strings are \<open>string\<close>, one
  \<open>char\<close> per code unit.
\<close>

datatype json =
    JNull
  | JBool bool
  | JNum int
  | JNonInt string
  | JStr string
  | JArr "json list"
  | JObj "(string \<times> json) list"

text \<open>
  What the code throws or a hook may throw. \<open>TypeError k\<close> is the TypeError of reading
  the property \<open>k\<close> of \<^verbatim>\<open>null\<close>, or, with \<open>k = ''toString''\<close>, of converting to a string
  an object that cannot be converted.
\<close>

datatype exn =
    Error string
  | TypeError string
  | PackageVerifyError string
  | ProcessExit nat

fun typeof :: "json option \<Rightarrow> string" where
  "typeof None = ''undefined''"
| "typeof (Some JNull) = ''object''"
| "typeof (Some (JBool b)) = ''boolean''"
| "typeof (Some (JNum n)) = ''number''"
| "typeof (Some (JNonInt s)) = ''number''"
| "typeof (Some (JStr s)) = ''string''"
| "typeof (Some (JArr xs)) = ''object''"
| "typeof (Some (JObj kvs)) = ''object''"

fun truthy :: "json option \<Rightarrow> bool" where
  "truthy None = False"
| "truthy (Some JNull) = False"
| "truthy (Some (JBool b)) = b"
| "truthy (Some (JNum n)) = (n \<noteq> 0)"
| "truthy (Some (JNonInt s)) = True"
| "truthy (Some (JStr s)) = (s \<noteq> [])"
| "truthy (Some (JArr xs)) = True"
| "truthy (Some (JObj kvs)) = True"

fun decimal :: "nat \<Rightarrow> string" where
  "decimal n =
     (if n < 10 then [char_of (48 + n)]
      else decimal (n div 10) @ [char_of (48 + n mod 10)])"

declare decimal.simps [simp del]

fun join :: "string \<Rightarrow> string list \<Rightarrow> string" where
  "join sep [] = []"
| "join sep [x] = x"
| "join sep (x # y # ys) = x @ sep @ join sep (y # ys)"

text \<open>\<^verbatim>\<open>Object.keys(x)\<close>: the own enumerable keys, indices for an array or a string.\<close>

fun Object_keys :: "json \<Rightarrow> string list" where
  "Object_keys (JObj kvs) = map fst kvs"
| "Object_keys (JArr xs) = map decimal [0..<length xs]"
| "Object_keys (JStr s) = map decimal [0..<length s]"
| "Object_keys j = []"

text \<open>
  A property read \<^verbatim>\<open>x.k\<close> or \<^verbatim>\<open>x[k]\<close>: of \<^verbatim>\<open>null\<close> it throws a TypeError, of any
  other value it gives the own property or \<^verbatim>\<open>undefined\<close>.
\<close>

fun get_prop :: "json \<Rightarrow> string \<Rightarrow> exn + json option" where
  "get_prop JNull k = Inl (TypeError k)"
| "get_prop (JObj kvs) k = Inr (map_of kvs k)"
| "get_prop (JArr xs) k =
     Inr (if k = ''length'' then Some (JNum (int (length xs)))
          else map_of (zip (map decimal [0..<length xs]) xs) k)"
| "get_prop (JStr s) k =
     Inr (if k = ''length'' then Some (JNum (int (length s)))
          else map_of (zip (map decimal [0..<length s]) (map (\<lambda>c. JStr [c]) s)) k)"
| "get_prop j k = Inr None"

fun indexOf_from :: "string \<Rightarrow> string \<Rightarrow> nat \<Rightarrow> int" where
  "indexOf_from [] sub i = (if sub = [] then int i else - 1)"
| "indexOf_from (c # cs) sub i =
     (if take (length sub) (c # cs) = sub then int i else indexOf_from cs sub (Suc i))"

definition indexOf :: "string \<Rightarrow> string \<Rightarrow> int" where
  "indexOf s sub = indexOf_from s sub 0"

definition charCodeAt :: "string \<Rightarrow> int \<Rightarrow> nat option" where
  "charCodeAt s i = (if 0 \<le> i \<and> nat i < length s then Some (of_char (s ! nat i)) else None)"

text \<open>\<^verbatim>\<open>s.split(d)\<close> for a separator of one character: empty pieces are kept.\<close>

fun split :: "char \<Rightarrow> string \<Rightarrow> string list" where
  "split d [] = [[]]"
| "split d (c # cs) =
     (if c = d then [] # split d cs
      else (case split d cs of [] \<Rightarrow> [[c]] | x # xs \<Rightarrow> (c # x) # xs))"

section \<open>The host: platform, environment, paths, file system, semver\<close>

text \<open>
  What the module takes from Node and from \<^verbatim>\<open>./semver\<close> is a parameter of the model:
  \<^verbatim>\<open>process.platform\<close>, the environment variables, \<^verbatim>\<open>process.execPath\<close>,
  \<^verbatim>\<open>Path.resolve\<close> and \<^verbatim>\<open>Path.basename\<close>, the three \<^verbatim>\<open>fs\<close> calls, \<^verbatim>\<open>JSON.parse\<close>,
  the string conversion of a number with an integer value, and \<^verbatim>\<open>semver.valid\<close> and
  \<^verbatim>\<open>semver.satisfies\<close>. The file system does not change
  during a run.
\<close>

datatype stats =
    StatThrows "int option"
  | Stats bool

record host =
  win32 :: bool
  HOME :: "string option"
  USERPROFILE :: "string option"
  NODE_PATH :: "string option"
  execPath :: string
  Path_resolve :: "string list \<Rightarrow> string"
  Path_basename :: "string \<Rightarrow> string"
  statSync :: "string \<Rightarrow> stats"
  lstatSync :: "string \<Rightarrow> bool option"
  readFileSync :: "string \<Rightarrow> string option"
  JSON_parse :: "string \<Rightarrow> json option"
  Number_toString :: "int \<Rightarrow> string"
  semver_valid :: "string \<Rightarrow> bool"
  semver_satisfies :: "string \<Rightarrow> string \<Rightarrow> bool"

text \<open>
  \<open>StatThrows errno\<close> is \<^verbatim>\<open>fs.statSync\<close> throwing an error with that \<^verbatim>\<open>errno\<close>
  (\<open>None\<close> when it has none), \<open>Stats d\<close> is success with \<^verbatim>\<open>isDirectory() = d\<close>.
  \<open>lstatSync\<close> gives \<open>None\<close> when it throws and \<^verbatim>\<open>isFile()\<close> otherwise;
  \<open>readFileSync\<close> and \<open>JSON_parse\<close> give \<open>None\<close> when they throw.
\<close>

definition Path_delimiter :: "host \<Rightarrow> char" where
  "Path_delimiter h = (if win32 h then CHR '';'' else CHR '':'')"

text \<open>
  String conversion in a template literal, \<^verbatim>\<open>`${x}`\<close>, of a value that came from
  \<^verbatim>\<open>JSON.parse\<close>. An object is converted by \<^verbatim>\<open>Object.prototype.toString\<close>, unless it has
  an own property \<^verbatim>\<open>toString\<close>: that property is not a function, and the conversion
  throws a TypeError. An array is converted by \<^verbatim>\<open>join\<close>: its elements in order, \<^verbatim>\<open>null\<close>
  as the empty string, with commas between them; the first element that cannot be
  converted throws.
\<close>

fun ToString_json :: "host \<Rightarrow> json \<Rightarrow> exn + string"
  and join_elements :: "host \<Rightarrow> json list \<Rightarrow> exn + string" where
  "ToString_json h JNull = Inr ''null''"
| "ToString_json h (JBool b) = Inr (if b then ''true'' else ''false'')"
| "ToString_json h (JNum n) = Inr (Number_toString h n)"
| "ToString_json h (JNonInt s) = Inr s"
| "ToString_json h (JStr s) = Inr s"
| "ToString_json h (JArr xs) = join_elements h xs"
| "ToString_json h (JObj kvs) =
     (if map_of kvs ''toString'' \<noteq> None then Inl (TypeError ''toString'')
      else Inr ''[object Object]'')"
| "join_elements h [] = Inr []"
| "join_elements h (x # xs) =
     (case (if x = JNull then Inr [] else ToString_json h x) of
        Inl e \<Rightarrow> Inl e
      | Inr s \<Rightarrow>
          if xs = [] then Inr s
          else (case join_elements h xs of
                  Inl e \<Rightarrow> Inl e
                | Inr t \<Rightarrow> Inr (s @ '','' @ t)))"

definition ToString :: "host \<Rightarrow> json option \<Rightarrow> exn + string" where
  "ToString h x = (case x of None \<Rightarrow> Inr ''undefined'' | Some j \<Rightarrow> ToString_json h j)"

text \<open>
  The string that a value is, where the code has tested \<^verbatim>\<open>typeof x\<close> to be
  \<^verbatim>\<open>'string'\<close>: there \<^verbatim>\<open>`${x}`\<close> is \<^verbatim>\<open>x\<close> itself.
\<close>

fun string_value :: "json option \<Rightarrow> string" where
  "string_value (Some (JStr s)) = s"
| "string_value x = []"

section \<open>The path resolver\<close>

definition globalPaths :: "host \<Rightarrow> string list" where
  "globalPaths h =
     (let windows = win32 h;
          home = (if windows then USERPROFILE h else HOME h);
          prefix = (if windows then Path_resolve h [execPath h, ''..'']
                    else Path_resolve h [execPath h, ''..'', ''..'']);
          paths = [Path_resolve h [prefix, ''lib'', ''node'']];
          paths = (case home of
                     None \<Rightarrow> paths
                   | Some hm \<Rightarrow>
                       if hm \<noteq> []
                       then Path_resolve h [hm, ''.node_modules'']
                            # Path_resolve h [hm, ''.node_libraries'']
                            # paths
                       else paths)
      in case NODE_PATH h of
           None \<Rightarrow> paths
         | Some node \<Rightarrow>
             if node \<noteq> []
             then filter (\<lambda>p. p \<noteq> []) (split (Path_delimiter h) node) @ paths
             else paths)"

definition nmChars :: "nat list" where
  "nmChars = [115, 101, 108, 117, 100, 111, 109, 95, 101, 100, 111, 110]"

definition nmLen :: int where
  "nmLen = 12"

text \<open>\<^verbatim>\<open>nmChars[p] === code\<close>: false when the index is out of range.\<close>

definition nmChars_is :: "int \<Rightarrow> nat option \<Rightarrow> bool" where
  "nmChars_is p code =
     (case code of
        None \<Rightarrow> False
      | Some c \<Rightarrow> 0 \<le> p \<and> nat p < length nmChars \<and> nmChars ! nat p = c)"

text \<open>
  One iteration of the \<^verbatim>\<open>for\<close> loop of the POSIX \<^verbatim>\<open>getModulePaths\<close>, at index \<open>i\<close>,
  on the loop's variables \<^verbatim>\<open>paths\<close>, \<^verbatim>\<open>last\<close> (here \<open>last'\<close>) and \<^verbatim>\<open>p\<close>.
\<close>

definition posix_step ::
  "string \<Rightarrow> nat \<Rightarrow> string list \<times> nat \<times> int \<Rightarrow> string list \<times> nat \<times> int" where
  "posix_step from i st =
     (case st of (paths, last', p) \<Rightarrow>
        let code = charCodeAt from (int i) in
        if code = Some 47
        then ((if p \<noteq> nmLen then paths @ [take last' from @ ''/node_modules''] else paths), i, 0)
        else if p \<noteq> - 1
        then (if nmChars_is p code then (paths, last', p + 1) else (paths, last', - 1))
        else (paths, last', p))"

text \<open>The loop \<^verbatim>\<open>for (let i = n - 1; i >= 0; --i)\<close>, as \<open>posix_loop from n\<close>.\<close>

primrec posix_loop ::
  "string \<Rightarrow> nat \<Rightarrow> string list \<times> nat \<times> int \<Rightarrow> string list \<times> nat \<times> int" where
  "posix_loop from 0 st = st"
| "posix_loop from (Suc i) st = posix_loop from i (posix_step from i st)"

definition getModulePaths_posix :: "host \<Rightarrow> string \<Rightarrow> string list" where
  "getModulePaths_posix h from0 =
     (let from = Path_resolve h [from0] in
      if from = ''/'' then [''/node_modules''] @ globalPaths h
      else (case posix_loop from (length from) ([], length from, 0) of
              (paths, last', p) \<Rightarrow> (paths @ [''/node_modules'']) @ globalPaths h))"

definition win32_step ::
  "string \<Rightarrow> nat \<Rightarrow> string list \<times> nat \<times> int \<Rightarrow> string list \<times> nat \<times> int" where
  "win32_step from i st =
     (case st of (paths, last', p) \<Rightarrow>
        let code = charCodeAt from (int i) in
        if code = Some 92 \<or> code = Some 47 \<or> code = Some 58
        then ((if p \<noteq> nmLen then paths @ [take last' from @ [CHR 0x5C] @ ''node_modules''] else paths), i, 0)
        else if p \<noteq> - 1
        then (if nmChars_is p code then (paths, last', p + 1) else (paths, last', - 1))
        else (paths, last', p))"

primrec win32_loop ::
  "string \<Rightarrow> nat \<Rightarrow> string list \<times> nat \<times> int \<Rightarrow> string list \<times> nat \<times> int" where
  "win32_loop from 0 st = st"
| "win32_loop from (Suc i) st = win32_loop from i (win32_step from i st)"

definition getModulePaths_win32 :: "host \<Rightarrow> string \<Rightarrow> string list" where
  "getModulePaths_win32 h from0 =
     (let from = Path_resolve h [from0] in
      if charCodeAt from (int (length from) - 1) = Some 92
         \<and> charCodeAt from (int (length from) - 2) = Some 58
      then [from @ ''node_modules''] @ globalPaths h
      else (case win32_loop from (length from) ([], length from, 0) of
              (paths, last', p) \<Rightarrow> paths @ globalPaths h))"

definition getModulePaths :: "host \<Rightarrow> string \<Rightarrow> string list" where
  "getModulePaths h from =
     (if win32 h then getModulePaths_win32 h from else getModulePaths_posix h from)"

definition stat :: "host \<Rightarrow> string \<Rightarrow> int" where
  "stat h filename =
     (case statSync h filename of
        StatThrows errno \<Rightarrow>
          (case errno of None \<Rightarrow> - 1 | Some e \<Rightarrow> if e \<noteq> 0 then e else - 1)
      | Stats isDirectory \<Rightarrow> if isDirectory then 1 else 0)"

text \<open>The \<^verbatim>\<open>for (const path of paths)\<close> loop of \<^verbatim>\<open>resolve\<close>.\<close>

fun resolve_paths :: "host \<Rightarrow> string \<Rightarrow> string list \<Rightarrow> string option" where
  "resolve_paths h name [] = None"
| "resolve_paths h name (path # paths) =
     (if stat h path < 1 then resolve_paths h name paths
      else (let base = Path_resolve h [path, name] in
            if stat h base < 0 then resolve_paths h name paths
            else Some base))"

definition resolve :: "host \<Rightarrow> string \<Rightarrow> string \<Rightarrow> string option" where
  "resolve h name dirname =
     (if length name > 0 \<and> (name ! 0 = CHR ''.'' \<or> name ! 0 = CHR ''/'')
      then (let base = Path_resolve h [dirname, name] in
            if stat h base < 0 then None else Some base)
      else resolve_paths h name (getModulePaths h dirname))"

definition read :: "host \<Rightarrow> string \<Rightarrow> json" where
  "read h moddir =
     (let filename = Path_resolve h [moddir, ''package.json''] in
      case readFileSync h filename of
        None \<Rightarrow> JNum (- 1)
      | Some data \<Rightarrow> (case JSON_parse h data of None \<Rightarrow> JNum (- 2) | Some j \<Rightarrow> j))"

definition hasBinding :: "host \<Rightarrow> string \<Rightarrow> bool" where
  "hasBinding h moddir =
     (let filename = Path_resolve h [moddir, ''binding.gyp''] in
      case lstatSync h filename of None \<Rightarrow> False | Some isFile \<Rightarrow> isFile)"

section \<open>The Verifier\<close>

text \<open>
  A \<^verbatim>\<open>Verifier\<close> instance has its options and the objects \<^verbatim>\<open>cache\<close> and \<^verbatim>\<open>bindings\<close>,
  used as sets of keys. A hook is a function of the message: \<open>None\<close> when it returns,
  \<open>Some e\<close> when it throws \<open>e\<close> or ends the process. The field \<open>trace\<close> is a ghost log
  of what a run does: each call of a hook, each read of a manifest file (each call of
  \<^verbatim>\<open>read\<close>, by \<^verbatim>\<open>verify\<close> and by \<^verbatim>\<open>verifyDeps\<close>), and each insertion of a directory into
  \<^verbatim>\<open>cache\<close> (by \<^verbatim>\<open>verifyPackage\<close>).
\<close>

datatype event =
    Dbg string
  | Err string
  | ReadFile string
  | Visit string

record verifier =
  opt_debug :: "(string \<Rightarrow> exn option) option"
  opt_error :: "(string \<Rightarrow> exn option) option"
  cache :: "string set"
  bindings :: "string set"
  trace :: "event list"

text \<open>
  A method ends by returning (\<open>Ok\<close>) or by an exception (\<open>Raise\<close>), each with the
  instance as it is then. \<open>OutOfFuel\<close> is the recursion not having ended within the
  given depth.
\<close>

datatype result =
    Ok verifier
  | Raise exn verifier
  | OutOfFuel

definition andThen :: "result \<Rightarrow> (verifier \<Rightarrow> result) \<Rightarrow> result" where
  "andThen r f = (case r of Ok v \<Rightarrow> f v | Raise e v \<Rightarrow> Raise e v | OutOfFuel \<Rightarrow> OutOfFuel)"

definition log :: "event \<Rightarrow> verifier \<Rightarrow> verifier" where
  "log e v = v\<lparr>trace := trace v @ [e]\<rparr>"

definition debug :: "string \<Rightarrow> verifier \<Rightarrow> result" where
  "debug msg v =
     (case opt_debug v of
        None \<Rightarrow> Ok v
      | Some hook \<Rightarrow>
          (case hook msg of
             None \<Rightarrow> Ok (log (Dbg msg) v)
           | Some e \<Rightarrow> Raise e (log (Dbg msg) v)))"

definition error :: "string \<Rightarrow> verifier \<Rightarrow> result" where
  "error msg v =
     (case opt_error v of
        None \<Rightarrow> Raise (Error msg) v
      | Some hook \<Rightarrow>
          (case hook msg of
             None \<Rightarrow> Ok (log (Err msg) v)
           | Some e \<Rightarrow> Raise e (log (Err msg) v)))"

definition fields :: "string list" where
  "fields = [''dependencies'', ''peerDependencies'', ''optionalDependencies'']"

text \<open>A \<^verbatim>\<open>for ... of\<close> loop whose body may throw; \<^verbatim>\<open>continue\<close> is the body returning.\<close>

fun for_each :: "('a \<Rightarrow> verifier \<Rightarrow> result) \<Rightarrow> 'a list \<Rightarrow> verifier \<Rightarrow> result" where
  "for_each body [] v = Ok v"
| "for_each body (x # xs) v = andThen (body x v) (for_each body xs)"

text \<open>
  The body of the loop of \<^verbatim>\<open>verifyDeps\<close>, for one \<open>name\<close>. Its first argument is the
  method \<^verbatim>\<open>verifyPackage\<close> it calls last.
\<close>

definition verifyDep ::
  "host \<Rightarrow> (json \<Rightarrow> string \<Rightarrow> verifier \<Rightarrow> result) \<Rightarrow> string \<Rightarrow> json \<Rightarrow> string \<Rightarrow> string
     \<Rightarrow> verifier \<Rightarrow> result" where
  "verifyDep h verifyPackage field deps dirname name v =
     (if length name = 0 then error (''Invalid name in '' @ field @ ''.'') v
      else if name ! 0 = CHR ''@'' then Ok v
      else if indexOf name ''://'' \<noteq> - 1 then Ok v
      else
        (case get_prop deps name of
           Inl e \<Rightarrow> Raise e v
         | Inr expect \<Rightarrow>
             if typeof expect \<noteq> ''string''
             then error (''Invalid field in '' @ field @ '': '' @ name @ ''.'') v
             else
               (case resolve h name dirname of
                  None \<Rightarrow>
                    if field = ''optionalDependencies''
                    then debug (''Missing optional dependency: '' @ name @ ''@''
                                @ string_value expect @ ''.'') v
                    else error (''Missing dependency: '' @ name @ ''@''
                                @ string_value expect @ ''.'') v
                | Some moddir \<Rightarrow>
                    if moddir = []
                    then
                      (if field = ''optionalDependencies''
                       then debug (''Missing optional dependency: '' @ name @ ''@''
                                   @ string_value expect @ ''.'') v
                       else error (''Missing dependency: '' @ name @ ''@''
                                   @ string_value expect @ ''.'') v)
                    else
                      andThen (debug (''Opening sub package.json in '' @ moddir @ ''.'') v)
                        (\<lambda>v.
                           let pkg = read h moddir;
                               v = log (ReadFile (Path_resolve h [moddir, ''package.json''])) v
                           in
                           if pkg = JNum (- 1)
                           then error (''Cannot access package.json: '' @ name @ ''@''
                                       @ string_value expect @ ''.'') v
                           else if pkg = JNum (- 2)
                           then error (''Malformed package.json: '' @ name @ ''@''
                                       @ string_value expect @ ''.'') v
                           else if \<not> truthy (Some pkg)
                           then error (''No version in package.json: '' @ name @ ''@''
                                       @ string_value expect @ ''.'') v
                           else
                             (case get_prop pkg ''version'' of
                                Inl e \<Rightarrow> Raise e v
                              | Inr version \<Rightarrow>
                                  if typeof version \<noteq> ''string''
                                  then error (''No version in package.json: '' @ name @ ''@''
                                              @ string_value expect @ ''.'') v
                                  else
                                    andThen
                                      (if \<not> semver_valid h (string_value version)
                                       then error (''Invalid version for '' @ name @ ''@''
                                                   @ string_value expect @ '': ''
                                                   @ string_value version @ ''.'') v
                                       else if \<not> semver_satisfies h (string_value version)
                                                   (string_value expect)
                                       then error (''Unmet dependency version '' @ name @ ''@''
                                                   @ string_value expect @ '': ''
                                                   @ string_value version @ ''.'') v
                                       else Ok v)
                                      (\<lambda>v.
                                         andThen
                                           (debug (''Valid version: '' @ name @ ''@''
                                                   @ string_value version @ '' satisfies ''
                                                   @ string_value expect @ ''.'') v)
                                           (verifyPackage pkg moddir)))))))"

definition verifyDeps ::
  "host \<Rightarrow> (json \<Rightarrow> string \<Rightarrow> verifier \<Rightarrow> result) \<Rightarrow> string \<Rightarrow> json \<Rightarrow> string
     \<Rightarrow> verifier \<Rightarrow> result" where
  "verifyDeps h verifyPackage field deps dirname v =
     for_each (verifyDep h verifyPackage field deps dirname) (Object_keys deps) v"

text \<open>The body of the loop over \<^verbatim>\<open>fields\<close> in \<^verbatim>\<open>verifyPackage\<close>.\<close>

definition verifyField ::
  "host \<Rightarrow> (json \<Rightarrow> string \<Rightarrow> verifier \<Rightarrow> result) \<Rightarrow> json \<Rightarrow> string \<Rightarrow> string
     \<Rightarrow> verifier \<Rightarrow> result" where
  "verifyField h verifyPackage pkg dirname field v =
     (case get_prop pkg field of
        Inl e \<Rightarrow> Raise e v
      | Inr deps \<Rightarrow>
          if \<not> truthy deps then Ok v
          else
            (case deps of
               None \<Rightarrow> Ok v
             | Some d \<Rightarrow>
                 if typeof deps \<noteq> ''object''
                 then error (''Invalid field in package.json: '' @ field @ ''.'') v
                 else verifyDeps h verifyPackage field d dirname v))"

text \<open>
  \<^verbatim>\<open>verifyPackage\<close>, with the method it reaches through \<^verbatim>\<open>verifyDeps\<close> as its first
  argument. Both messages are built from \<^verbatim>\<open>pkg.name\<close>, whether or not there is a debug
  hook; the second conversion is of the same value as the first and gives the same
  string \<open>s\<close>.
\<close>

definition verifyPackage_body ::
  "host \<Rightarrow> (json \<Rightarrow> string \<Rightarrow> verifier \<Rightarrow> result) \<Rightarrow> json \<Rightarrow> string
     \<Rightarrow> verifier \<Rightarrow> result" where
  "verifyPackage_body h verifyPackage pkg dirname v =
     (if dirname \<in> cache v then Ok v
      else
        (let v = log (Visit dirname) (v\<lparr>cache := insert dirname (cache v)\<rparr>);
             v = (if hasBinding h dirname
                  then v\<lparr>bindings := insert (Path_basename h dirname) (bindings v)\<rparr>
                  else v)
         in case get_prop pkg ''name'' of
              Inl e \<Rightarrow> Raise e v
            | Inr nm \<Rightarrow>
                (case ToString h nm of
                   Inl e \<Rightarrow> Raise e v
                 | Inr s \<Rightarrow>
                     andThen (debug (''Verifying package '' @ s @ '' at ''
                                     @ dirname @ ''.'') v)
                       (\<lambda>v.
                          andThen (for_each (verifyField h verifyPackage pkg dirname) fields v)
                            (debug (''Package '' @ s @ '' is valid!''))))))"

text \<open>
  The recursion of \<^verbatim>\<open>verifyPackage\<close> through \<^verbatim>\<open>verifyDeps\<close>, to depth \<open>fuel\<close>.
\<close>

primrec verifyPackage :: "nat \<Rightarrow> host \<Rightarrow> json \<Rightarrow> string \<Rightarrow> verifier \<Rightarrow> result" where
  "verifyPackage 0 h pkg dirname v = OutOfFuel"
| "verifyPackage (Suc fuel) h pkg dirname v =
     verifyPackage_body h (verifyPackage fuel h) pkg dirname v"

text \<open>
  \<^verbatim>\<open>Verifier.verify(name, dirname)\<close>. The value it returns (\<^verbatim>\<open>this\<close>, or nothing on an
  early return) is left out.
\<close>

definition verify :: "nat \<Rightarrow> host \<Rightarrow> string \<Rightarrow> string \<Rightarrow> verifier \<Rightarrow> result" where
  "verify fuel h name dirname v =
     (case resolve h name dirname of
        None \<Rightarrow> error ''Missing package.json!'' v
      | Some moddir \<Rightarrow>
          if moddir = [] then error ''Missing package.json!'' v
          else
            andThen (debug (''Opening main package.json in '' @ moddir @ ''.'') v)
              (\<lambda>v.
                 let pkg = read h moddir;
                     v = log (ReadFile (Path_resolve h [moddir, ''package.json''])) v
                 in
                 if pkg = JNum (- 1) then error ''Could not open package.json!'' v
                 else if pkg = JNum (- 2) then error ''Malformed package.json!'' v
                 else
                   (case get_prop pkg ''name'' of
                      Inl e \<Rightarrow> Raise e v
                    | Inr nm \<Rightarrow>
                        if nm \<noteq> Some (JStr name)
                        then
                          (case ToString h nm of
                             Inl e \<Rightarrow> Raise e v
                           | Inr s \<Rightarrow>
                               error (''Package name mismatch: '' @ name @ '' != ''
                                      @ s @ ''.'') v)
                        else if \<not> truthy (Some pkg) \<or> typeof (Some pkg) \<noteq> ''object''
                        then error ''Missing package.json!'' v
                        else
                          (case ToString h nm of
                             Inl e \<Rightarrow> Raise e v
                           | Inr s \<Rightarrow>
                               andThen (debug (''Opened package.json for '' @ s @ ''.'') v)
                                 (verifyPackage fuel h pkg moddir)))))"

text \<open>
  The constructor, and the hooks of the exported \<^verbatim>\<open>verify\<close>, \<^verbatim>\<open>warn\<close>, \<^verbatim>\<open>exit\<close> and
  \<^verbatim>\<open>stop\<close>: no error hook (so \<^verbatim>\<open>error\<close> throws), print and return, print and
  \<^verbatim>\<open>process.exit(1)\<close>, throw a \<^verbatim>\<open>PackageVerifyError\<close>. The log so far is \<open>tr\<close>.
\<close>

definition Verifier ::
  "(string \<Rightarrow> exn option) option \<Rightarrow> (string \<Rightarrow> exn option) option \<Rightarrow> event list
     \<Rightarrow> verifier" where
  "Verifier dbg err tr =
     \<lparr>opt_debug = dbg, opt_error = err, cache = {}, bindings = {}, trace = tr\<rparr>"

definition console_hook :: "string \<Rightarrow> exn option" where
  "console_hook msg = None"

definition exit_hook :: "string \<Rightarrow> exn option" where
  "exit_hook msg = Some (ProcessExit 1)"

definition stop_hook :: "string \<Rightarrow> exn option" where
  "stop_hook msg = Some (PackageVerifyError msg)"

definition debug_option :: "bool \<Rightarrow> (string \<Rightarrow> exn option) option" where
  "debug_option shouldDebug = (if shouldDebug then Some console_hook else None)"

definition verify_api :: "nat \<Rightarrow> host \<Rightarrow> string \<Rightarrow> string \<Rightarrow> bool \<Rightarrow> event list \<Rightarrow> result" where
  "verify_api fuel h dirname name shouldDebug tr =
     verify fuel h name dirname (Verifier (debug_option shouldDebug) None tr)"

definition warn :: "nat \<Rightarrow> host \<Rightarrow> string \<Rightarrow> string \<Rightarrow> bool \<Rightarrow> event list \<Rightarrow> result" where
  "warn fuel h dirname name shouldDebug tr =
     verify fuel h name dirname (Verifier (debug_option shouldDebug) (Some console_hook) tr)"

definition exit :: "nat \<Rightarrow> host \<Rightarrow> string \<Rightarrow> string \<Rightarrow> bool \<Rightarrow> event list \<Rightarrow> result" where
  "exit fuel h dirname name shouldDebug tr =
     verify fuel h name dirname (Verifier (debug_option shouldDebug) (Some exit_hook) tr)"

definition stop :: "nat \<Rightarrow> host \<Rightarrow> string \<Rightarrow> string \<Rightarrow> bool \<Rightarrow> event list \<Rightarrow> result" where
  "stop fuel h dirname name shouldDebug tr =
     verify fuel h name dirname (Verifier (debug_option shouldDebug) (Some stop_hook) tr)"

section \<open>A concrete POSIX host\<close>

text \<open>
  For evaluating the code on concrete inputs: \<^verbatim>\<open>path.resolve\<close> and \<^verbatim>\<open>path.basename\<close>
  of Node on POSIX (the working directory being \<^verbatim>\<open>/\<close>), a file system and
  \<^verbatim>\<open>JSON.parse\<close> given by tables, and semver given by the list of valid versions and
  the list of (version, range) pairs that are satisfied. An integer is printed in
  decimal digits, as JavaScript prints every integer of magnitude below \<open>2 ^ 53\<close>;
  the manifests below hold no number.
\<close>

fun normalize_segs :: "string list \<Rightarrow> string list \<Rightarrow> string list" where
  "normalize_segs [] acc = rev acc"
| "normalize_segs (s # ss) acc =
     (if s = [] \<or> s = ''.'' then normalize_segs ss acc
      else if s = ''..'' then normalize_segs ss (case acc of [] \<Rightarrow> [] | a # as \<Rightarrow> as)
      else normalize_segs ss (s # acc))"

definition abs_path :: "string list \<Rightarrow> string" where
  "abs_path segs = (if segs = [] then ''/'' else concat (map (\<lambda>s. CHR ''/'' # s) segs))"

fun join_args :: "string \<Rightarrow> string list \<Rightarrow> string" where
  "join_args acc [] = acc"
| "join_args acc (a # as) =
     join_args (if a = [] then acc else if hd a = CHR ''/'' then a else acc @ ''/'' @ a) as"

definition posix_resolve :: "string list \<Rightarrow> string" where
  "posix_resolve args = abs_path (normalize_segs (split CHR ''/'' (join_args ''/'' args)) [])"

definition posix_basename :: "string \<Rightarrow> string" where
  "posix_basename p =
     (case rev (filter (\<lambda>s. s \<noteq> []) (split CHR ''/'' p)) of [] \<Rightarrow> [] | s # ss \<Rightarrow> s)"

datatype node =
    Directory
  | File string

definition posix_host ::
  "(string \<times> node) list \<Rightarrow> (string \<times> json) list \<Rightarrow> string list \<Rightarrow> (string \<times> string) list
     \<Rightarrow> host" where
  "posix_host fs parse valid sat =
     \<lparr>win32 = False,
      HOME = Some ''/home/u'',
      USERPROFILE = None,
      NODE_PATH = None,
      execPath = ''/usr/local/bin/node'',
      Path_resolve = posix_resolve,
      Path_basename = posix_basename,
      statSync = (\<lambda>p. case map_of fs p of
                         None \<Rightarrow> StatThrows (Some (- 2))
                       | Some Directory \<Rightarrow> Stats True
                       | Some (File c) \<Rightarrow> Stats False),
      lstatSync = (\<lambda>p. case map_of fs p of
                          None \<Rightarrow> None
                        | Some Directory \<Rightarrow> Some False
                        | Some (File c) \<Rightarrow> Some True),
      readFileSync = (\<lambda>p. case map_of fs p of
                             None \<Rightarrow> None
                           | Some Directory \<Rightarrow> None
                           | Some (File c) \<Rightarrow> Some c),
      JSON_parse = map_of parse,
      Number_toString = (\<lambda>n. if n < 0 then CHR ''-'' # decimal (nat (- n))
                              else decimal (nat n)),
      semver_valid = (\<lambda>v. v \<in> set valid),
      semver_satisfies = (\<lambda>v r. (v, r) \<in> set sat)\<rparr>"

section \<open>Notions used in the statements\<close>

text \<open>
  Node's \<^verbatim>\<open>errno\<close> values are negative (\<^verbatim>\<open>-2\<close> for \<^verbatim>\<open>ENOENT\<close>). Under that convention
  \<^verbatim>\<open>stat\<close> is negative exactly when \<^verbatim>\<open>fs.statSync\<close> throws.
\<close>

definition errno_negative :: "host \<Rightarrow> bool" where
  "errno_negative h = (\<forall>p e. statSync h p = StatThrows (Some e) \<longrightarrow> e \<le> 0)"

definition path_exists :: "host \<Rightarrow> string \<Rightarrow> bool" where
  "path_exists h p = (case statSync h p of StatThrows errno \<Rightarrow> False | Stats d \<Rightarrow> True)"

definition is_directory :: "host \<Rightarrow> string \<Rightarrow> bool" where
  "is_directory h p = (statSync h p = Stats True)"

text \<open>
  Appending events to the log; the events a call of \<^verbatim>\<open>this.debug(msg)\<close> leaves; a debug
  hook that always returns (or none); an error hook that always returns (the policy of
  \<^verbatim>\<open>warn\<close>).
\<close>

definition logs :: "event list \<Rightarrow> verifier \<Rightarrow> verifier" where
  "logs es v = v\<lparr>trace := trace v @ es\<rparr>"

definition debug_events :: "verifier \<Rightarrow> string \<Rightarrow> event list" where
  "debug_events v msg = (case opt_debug v of None \<Rightarrow> [] | Some hook \<Rightarrow> [Dbg msg])"

definition quiet_debug :: "verifier \<Rightarrow> bool" where
  "quiet_debug v = (case opt_debug v of None \<Rightarrow> True | Some hook \<Rightarrow> \<forall>msg. hook msg = None)"

definition collecting :: "verifier \<Rightarrow> bool" where
  "collecting v = (case opt_error v of None \<Rightarrow> False | Some hook \<Rightarrow> \<forall>msg. hook msg = None)"

text \<open>
  \<^verbatim>\<open>Verifier.verify\<close> with its guard \<^verbatim>\<open>if (!pkg || typeof pkg !== 'object')\<close> taken out,
  to say that the guard never fires.
\<close>

definition verify_no_object_guard ::
  "nat \<Rightarrow> host \<Rightarrow> string \<Rightarrow> string \<Rightarrow> verifier \<Rightarrow> result" where
  "verify_no_object_guard fuel h name dirname v =
     (case resolve h name dirname of
        None \<Rightarrow> error ''Missing package.json!'' v
      | Some moddir \<Rightarrow>
          if moddir = [] then error ''Missing package.json!'' v
          else
            andThen (debug (''Opening main package.json in '' @ moddir @ ''.'') v)
              (\<lambda>v.
                 let pkg = read h moddir;
                     v = log (ReadFile (Path_resolve h [moddir, ''package.json''])) v
                 in
                 if pkg = JNum (- 1) then error ''Could not open package.json!'' v
                 else if pkg = JNum (- 2) then error ''Malformed package.json!'' v
                 else
                   (case get_prop pkg ''name'' of
                      Inl e \<Rightarrow> Raise e v
                    | Inr nm \<Rightarrow>
                        if nm \<noteq> Some (JStr name)
                        then
                          (case ToString h nm of
                             Inl e \<Rightarrow> Raise e v
                           | Inr s \<Rightarrow>
                               error (''Package name mismatch: '' @ name @ '' != ''
                                      @ s @ ''.'') v)
                        else
                          (case ToString h nm of
                             Inl e \<Rightarrow> Raise e v
                           | Inr s \<Rightarrow>
                               andThen (debug (''Opened package.json for '' @ s @ ''.'') v)
                                 (verifyPackage fuel h pkg moddir)))))"

text \<open>
  The directories a run has marked visited, in order; each at most once, and all in
  \<^verbatim>\<open>cache\<close>; the paths that \<^verbatim>\<open>stat\<close> reports as existing; the instance a method ends
  with.
\<close>

fun visits :: "event list \<Rightarrow> string list" where
  "visits [] = []"
| "visits (Visit d # es) = d # visits es"
| "visits (Dbg m # es) = visits es"
| "visits (Err m # es) = visits es"
| "visits (ReadFile f # es) = visits es"

definition visited_once :: "verifier \<Rightarrow> bool" where
  "visited_once v = (distinct (visits (trace v)) \<and> set (visits (trace v)) \<subseteq> cache v)"

definition existing :: "host \<Rightarrow> string set" where
  "existing h = {d. 0 \<le> stat h d}"

fun final_state :: "result \<Rightarrow> verifier option" where
  "final_state (Ok v) = Some v"
| "final_state (Raise e v) = Some v"
| "final_state OutOfFuel = None"

text \<open>What is seen of a result: whether the method returned, the log, \<^verbatim>\<open>cache\<close>.\<close>

fun returned :: "result \<Rightarrow> bool" where
  "returned (Ok v) = True"
| "returned (Raise e v) = False"
| "returned OutOfFuel = False"

definition trace_of :: "result \<Rightarrow> event list" where
  "trace_of r = (case final_state r of None \<Rightarrow> [] | Some v \<Rightarrow> trace v)"

definition cache_of :: "result \<Rightarrow> string set" where
  "cache_of r = (case final_state r of None \<Rightarrow> {} | Some v \<Rightarrow> cache v)"

text \<open>
  For the proofs: \<open>v'\<close> comes after \<open>v\<close> in a run; a method started in \<open>v\<close> ends, in
  a state that comes after \<open>v\<close>; two runs from \<open>v\<close> end alike.
\<close>

definition extends :: "verifier \<Rightarrow> verifier \<Rightarrow> bool" where
  "extends v v' =
     (cache v \<subseteq> cache v' \<and> (\<exists>es. trace v' = trace v @ es)
      \<and> (visited_once v \<longrightarrow> visited_once v'))"

definition good :: "result \<Rightarrow> verifier \<Rightarrow> bool" where
  "good r v = (case final_state r of None \<Rightarrow> False | Some v' \<Rightarrow> extends v v')"

definition alike :: "verifier \<Rightarrow> result \<Rightarrow> result \<Rightarrow> bool" where
  "alike v r r' = (r = r' \<and> good r v)"

text \<open>
  The candidate list in the words of the specification. A path that \<^verbatim>\<open>Path.resolve\<close>
  returns on POSIX is \<open>abs_path segs\<close> for a list of segments, each non-empty and
  without a separator. Its ancestors, deepest first, come by stripping the last segment
  again and again; each gives the candidate \<^verbatim>\<open><ancestor>/node_modules\<close> unless its own
  last segment is \<^verbatim>\<open>node_modules\<close>. Then come the home directory's two legacy
  directories and the \<^verbatim>\<open>lib/node\<close> of the installation prefix.
\<close>

definition segment :: "string \<Rightarrow> bool" where
  "segment s = (s \<noteq> [] \<and> CHR ''/'' \<notin> set s)"

fun ancestors :: "string list \<Rightarrow> string list list" where
  "ancestors segs = (if segs = [] then [] else segs # ancestors (butlast segs))"

declare ancestors.simps [simp del]

definition ancestor_candidates :: "string list \<Rightarrow> string list" where
  "ancestor_candidates segs =
     map (\<lambda>a. abs_path a @ ''/node_modules'')
       (filter (\<lambda>a. last a \<noteq> ''node_modules'') (ancestors segs))"

definition home_candidates :: "host \<Rightarrow> string list" where
  "home_candidates h =
     (case HOME h of
        None \<Rightarrow> []
      | Some hm \<Rightarrow>
          if hm = [] then []
          else [Path_resolve h [hm, ''.node_modules''],
                Path_resolve h [hm, ''.node_libraries'']])"

definition prefix_candidate :: "host \<Rightarrow> string" where
  "prefix_candidate h =
     Path_resolve h [Path_resolve h [execPath h, ''..'', ''..''], ''lib'', ''node'']"

text \<open>For the proofs: what one character that is not a separator does to \<^verbatim>\<open>p\<close>.\<close>

definition nm_step :: "int \<Rightarrow> char \<Rightarrow> int" where
  "nm_step p c =
     (if p \<noteq> - 1 then (if nmChars_is p (Some (of_char c)) then p + 1 else - 1) else p)"

section \<open>Concrete file systems\<close>

text \<open>
  A package \<^verbatim>\<open>app\<close> installed under \<^verbatim>\<open>/w/node_modules\<close> whose manifest declares the
  name \<^verbatim>\<open>other\<close> and a dependency \<^verbatim>\<open>gone\<close> that is not installed, and a regular file
  \<^verbatim>\<open>/w/f\<close>.
\<close>

definition fs_w :: "(string \<times> node) list" where
  "fs_w =
     [(''/w'', Directory),
      (''/w/node_modules'', Directory),
      (''/w/node_modules/app'', Directory),
      (''/w/node_modules/app/package.json'', File ''app.json''),
      (''/w/f'', File ''text'')]"

definition parse_w :: "(string \<times> json) list" where
  "parse_w =
     [(''app.json'',
       JObj [(''name'', JStr ''other''),
             (''dependencies'', JObj [(''gone'', JStr ''1.0.0'')])])]"

definition host_w :: host where
  "host_w = posix_host fs_w parse_w [] []"

text \<open>
  The same files, the manifest of \<^verbatim>\<open>app\<close> now being
  \<^verbatim>\<open>{"name": {"toString": null}}\<close>: a declared name that is an object with a key
  \<^verbatim>\<open>toString\<close> of its own.
\<close>

definition parse_t :: "(string \<times> json) list" where
  "parse_t = [(''app.json'', JObj [(''name'', JObj [(''toString'', JNull)])])]"

definition host_t :: host where
  "host_t = posix_host fs_w parse_t [] []"

text \<open>
  Packages hoisted into \<^verbatim>\<open>/p/node_modules\<close>: \<^verbatim>\<open>app\<close> depends on \<^verbatim>\<open>left-pad\<close> (installed
  at a version outside the range, itself depending on \<^verbatim>\<open>sub\<close>, not installed), on
  \<^verbatim>\<open>odd\<close> (installed, its version not a semantic version) and on \<^verbatim>\<open>gone\<close> (not
  installed), and optionally on \<^verbatim>\<open>fsevents\<close> (not installed). The manifest of \<^verbatim>\<open>nil\<close>
  parses to \<^verbatim>\<open>null\<close>.
\<close>

definition fs_p :: "(string \<times> node) list" where
  "fs_p =
     [(''/p'', Directory),
      (''/p/node_modules'', Directory),
      (''/p/node_modules/app'', Directory),
      (''/p/node_modules/app/package.json'', File ''app.json''),
      (''/p/node_modules/left-pad'', Directory),
      (''/p/node_modules/left-pad/package.json'', File ''left-pad.json''),
      (''/p/node_modules/odd'', Directory),
      (''/p/node_modules/odd/package.json'', File ''odd.json''),
      (''/p/node_modules/nil'', Directory),
      (''/p/node_modules/nil/package.json'', File ''null'')]"

definition parse_p :: "(string \<times> json) list" where
  "parse_p =
     [(''app.json'',
       JObj [(''name'', JStr ''app''),
             (''version'', JStr ''1.0.0''),
             (''dependencies'',
              JObj [(''left-pad'', JStr ''^1.0.0''), (''odd'', JStr ''*''),
                    (''gone'', JStr ''1.0.0'')]),
             (''optionalDependencies'', JObj [(''fsevents'', JStr ''^1.0.0'')])]),
      (''left-pad.json'',
       JObj [(''name'', JStr ''left-pad''),
             (''version'', JStr ''2.0.0''),
             (''dependencies'', JObj [(''sub'', JStr ''^1.0.0'')])]),
      (''odd.json'', JObj [(''name'', JStr ''odd''), (''version'', JStr ''banana'')]),
      (''null'', JNull)]"

definition host_p :: host where
  "host_p =
     posix_host fs_p parse_p [''1.0.0'', ''1.2.0'', ''2.0.0'']
       [(''1.2.0'', ''^1.0.0''), (''1.0.0'', ''^1.0.0''), (''1.0.0'', ''*''), (''2.0.0'', ''*'')]"

text \<open>
  A cycle and a diamond under \<^verbatim>\<open>/c/node_modules\<close>: \<^verbatim>\<open>a\<close> depends on \<^verbatim>\<open>b\<close> and \<^verbatim>\<open>d\<close>,
  \<^verbatim>\<open>b\<close> on \<^verbatim>\<open>a\<close> and \<^verbatim>\<open>d\<close>.
\<close>

definition fs_c :: "(string \<times> node) list" where
  "fs_c =
     [(''/c'', Directory),
      (''/c/node_modules'', Directory),
      (''/c/node_modules/a'', Directory),
      (''/c/node_modules/a/package.json'', File ''a.json''),
      (''/c/node_modules/b'', Directory),
      (''/c/node_modules/b/package.json'', File ''b.json''),
      (''/c/node_modules/d'', Directory),
      (''/c/node_modules/d/package.json'', File ''d.json'')]"

definition parse_c :: "(string \<times> json) list" where
  "parse_c =
     [(''a.json'',
       JObj [(''name'', JStr ''a''), (''version'', JStr ''1.0.0''),
             (''dependencies'', JObj [(''b'', JStr ''*''), (''d'', JStr ''*'')])]),
      (''b.json'',
       JObj [(''name'', JStr ''b''), (''version'', JStr ''1.0.0''),
             (''dependencies'', JObj [(''a'', JStr ''*''), (''d'', JStr ''*'')])]),
      (''d.json'', JObj [(''name'', JStr ''d''), (''version'', JStr ''1.0.0'')])]"

definition host_c :: host where
  "host_c = posix_host fs_c parse_c [''1.0.0''] [(''1.0.0'', ''*'')]"

text \<open>The host of \<^verbatim>\<open>/p\<close> with \<^verbatim>\<open>NODE_PATH\<close> set, an empty entry in the middle.\<close>

definition host_n :: host where
  "host_n = host_p\<lparr>NODE_PATH := Some ''/x::/y''\<rparr>"

section \<open>Properties of the path resolver\<close>

lemma stat_negative_iff:
  assumes "errno_negative h"
  shows "(stat h p < 0) = (\<not> path_exists h p)"
proof (cases "statSync h p")
  case (StatThrows errno)
  show ?thesis
  proof (cases errno)
    case None
    with StatThrows show ?thesis by (simp add: stat_def path_exists_def)
  next
    case (Some e)
    with StatThrows assms have "e \<le> 0" by (auto simp: errno_negative_def)
    with StatThrows Some show ?thesis by (simp add: stat_def path_exists_def)
  qed
next
  case (Stats d)
  then show ?thesis by (simp add: stat_def path_exists_def)
qed

lemma stat_below_one_iff:
  assumes "errno_negative h"
  shows "(stat h p < 1) = (\<not> is_directory h p)"
proof (cases "statSync h p")
  case (StatThrows errno)
  show ?thesis
  proof (cases errno)
    case None
    with StatThrows show ?thesis by (simp add: stat_def is_directory_def)
  next
    case (Some e)
    with StatThrows assms have "e \<le> 0" by (auto simp: errno_negative_def)
    with StatThrows Some show ?thesis by (simp add: stat_def is_directory_def)
  qed
next
  case (Stats d)
  then show ?thesis by (simp add: stat_def is_directory_def)
qed

lemma resolve_paths_find:
  assumes "errno_negative h"
  shows "resolve_paths h name paths =
         map_option (\<lambda>p. Path_resolve h [p, name])
           (find (\<lambda>p. is_directory h p \<and> path_exists h (Path_resolve h [p, name])) paths)"
  by (induction paths)
     (simp_all add: stat_negative_iff [OF assms] stat_below_one_iff [OF assms] Let_def)

lemma errno_negative_posix_host: "errno_negative (posix_host fs parse valid sat)"
  by (auto simp: errno_negative_def posix_host_def split: option.splits node.splits)

text \<open>
  C2, as amended. Under Node's errno convention, for a non-empty name: a name that
  begins with \<^verbatim>\<open>.\<close> or \<^verbatim>\<open>/\<close> resolves to \<^verbatim>\<open>Path.resolve(dirname, name)\<close> iff that path
  exists, whether it is a directory or not; a bare name resolves to
  \<^verbatim>\<open>Path.resolve(path, name)\<close> for the first candidate \<^verbatim>\<open>path\<close> of \<^verbatim>\<open>getModulePaths\<close>
  that is an existing directory and under which that path exists, whether it is a
  directory or not; in every other case the result is \<^verbatim>\<open>null\<close>.
\<close>

theorem resolve_any_existing_path:
  assumes "errno_negative h" and "name \<noteq> []"
  shows "resolve h name dirname =
         (if hd name = CHR ''.'' \<or> hd name = CHR ''/''
          then (if path_exists h (Path_resolve h [dirname, name])
                then Some (Path_resolve h [dirname, name]) else None)
          else map_option (\<lambda>p. Path_resolve h [p, name])
                 (find (\<lambda>p. is_directory h p \<and> path_exists h (Path_resolve h [p, name]))
                    (getModulePaths h dirname)))"
proof -
  from assms(2) have hd: "name ! 0 = hd name" by (simp add: hd_conv_nth)
  show ?thesis
    using assms(2)
    by (simp add: resolve_def hd Let_def stat_negative_iff [OF assms(1)]
          resolve_paths_find [OF assms(1)])
qed

theorem resolve_any_existing_path_witness:
  "errno_negative host_w \<and> ''app'' \<noteq> [] \<and> ''./node_modules'' \<noteq> []
   \<and> resolve host_w ''app'' ''/w'' = Some ''/w/node_modules/app''
   \<and> resolve host_w ''./node_modules'' ''/w'' = Some ''/w/node_modules''
   \<and> resolve host_w ''./none'' ''/w'' = None
   \<and> resolve host_w ''none'' ''/w'' = None"
proof -
  have e: "errno_negative host_w"
    unfolding host_w_def by (rule errno_negative_posix_host)
  have 1: "(if hd ''app'' = CHR ''.'' \<or> hd ''app'' = CHR ''/''
          then (if path_exists host_w (Path_resolve host_w [''/w'', ''app''])
                then Some (Path_resolve host_w [''/w'', ''app'']) else None)
          else map_option (\<lambda>p. Path_resolve host_w [p, ''app''])
                 (find (\<lambda>p. is_directory host_w p \<and> path_exists host_w (Path_resolve host_w [p, ''app'']))
                    (getModulePaths host_w ''/w''))) = Some ''/w/node_modules/app''"
    by code_simp
  have 2: "(if hd ''./node_modules'' = CHR ''.'' \<or> hd ''./node_modules'' = CHR ''/''
          then (if path_exists host_w (Path_resolve host_w [''/w'', ''./node_modules''])
                then Some (Path_resolve host_w [''/w'', ''./node_modules'']) else None)
          else map_option (\<lambda>p. Path_resolve host_w [p, ''./node_modules''])
                 (find (\<lambda>p. is_directory host_w p
                            \<and> path_exists host_w (Path_resolve host_w [p, ''./node_modules'']))
                    (getModulePaths host_w ''/w''))) = Some ''/w/node_modules''"
    by code_simp
  have 3: "(if hd ''./none'' = CHR ''.'' \<or> hd ''./none'' = CHR ''/''
          then (if path_exists host_w (Path_resolve host_w [''/w'', ''./none''])
                then Some (Path_resolve host_w [''/w'', ''./none'']) else None)
          else map_option (\<lambda>p. Path_resolve host_w [p, ''./none''])
                 (find (\<lambda>p. is_directory host_w p
                            \<and> path_exists host_w (Path_resolve host_w [p, ''./none'']))
                    (getModulePaths host_w ''/w''))) = None"
    by code_simp
  have 4: "(if hd ''none'' = CHR ''.'' \<or> hd ''none'' = CHR ''/''
          then (if path_exists host_w (Path_resolve host_w [''/w'', ''none''])
                then Some (Path_resolve host_w [''/w'', ''none'']) else None)
          else map_option (\<lambda>p. Path_resolve host_w [p, ''none''])
                 (find (\<lambda>p. is_directory host_w p
                            \<and> path_exists host_w (Path_resolve host_w [p, ''none'']))
                    (getModulePaths host_w ''/w''))) = None"
    by code_simp
  show ?thesis
    using e 1 2 3 4
      resolve_any_existing_path [OF e, of "''app''" "''/w''"]
      resolve_any_existing_path [OF e, of "''./node_modules''" "''/w''"]
      resolve_any_existing_path [OF e, of "''./none''" "''/w''"]
      resolve_any_existing_path [OF e, of "''none''" "''/w''"]
    by simp
qed

text \<open>
  C2, as stated, fails: \<^verbatim>\<open>resolve('./f', '/w')\<close> succeeds on the regular file
  \<^verbatim>\<open>/w/f\<close>, which \<^verbatim>\<open>fs.statSync\<close> reports as not a directory.
\<close>

theorem resolve_accepts_regular_file:
  "resolve host_w ''./f'' ''/w'' = Some ''/w/f'' \<and> statSync host_w ''/w/f'' = Stats False"
  by code_simp

text \<open>
  C3: the code at the empty name. With \<^verbatim>\<open>/w/node_modules\<close> an existing directory,
  \<^verbatim>\<open>resolve('', '/w')\<close> is that directory, not \<^verbatim>\<open>null\<close>.
\<close>

theorem resolve_empty_name_finds_directory:
  "resolve host_w [] ''/w'' = Some ''/w/node_modules''"
  by code_simp

section \<open>Properties of the Verifier's steps\<close>

lemma andThen_Ok [simp]: "andThen (Ok v) f = f v"
  by (simp add: andThen_def)

lemma andThen_Raise [simp]: "andThen (Raise e v) f = Raise e v"
  by (simp add: andThen_def)

lemma andThen_OutOfFuel [simp]: "andThen OutOfFuel f = OutOfFuel"
  by (simp add: andThen_def)

lemma log_fields [simp]:
  "opt_debug (log e v) = opt_debug v" "opt_error (log e v) = opt_error v"
  "cache (log e v) = cache v" "bindings (log e v) = bindings v"
  "trace (log e v) = trace v @ [e]"
  by (simp_all add: log_def)

lemma logs_fields [simp]:
  "opt_debug (logs es v) = opt_debug v" "opt_error (logs es v) = opt_error v"
  "cache (logs es v) = cache v" "bindings (logs es v) = bindings v"
  "trace (logs es v) = trace v @ es"
  by (simp_all add: logs_def)

lemma logs_logs: "logs es' (logs es v) = logs (es @ es') v"
  by (simp add: logs_def)

lemma log_is_logs: "log e v = logs [e] v"
  by (simp add: log_def logs_def)

lemma logs_Nil [simp]: "logs [] v = v"
  by (simp add: logs_def)

lemma quiet_debug_logs [simp]: "quiet_debug (logs es v) = quiet_debug v"
  by (simp add: quiet_debug_def)

lemma collecting_logs [simp]: "collecting (logs es v) = collecting v"
  by (simp add: collecting_def)

lemma debug_events_logs [simp]: "debug_events (logs es v) msg = debug_events v msg"
  by (simp add: debug_events_def)

lemma debug_quiet: "quiet_debug v \<Longrightarrow> debug msg v = Ok (logs (debug_events v msg) v)"
  by (auto simp: quiet_debug_def debug_def debug_events_def logs_def log_def
      split: option.splits)

lemma error_collecting: "collecting v \<Longrightarrow> error msg v = Ok (logs [Err msg] v)"
  by (auto simp: collecting_def error_def logs_def log_def split: option.splits)

lemma error_default: "opt_error v = None \<Longrightarrow> error msg v = Raise (Error msg) v"
  by (simp add: error_def)

lemma ToString_JStr [simp]: "ToString h (Some (JStr s)) = Inr s"
  by (simp add: ToString_def)

lemma warn_policy:
  "quiet_debug (Verifier None (Some console_hook) tr)"
  "collecting (Verifier None (Some console_hook) tr)"
  "debug_events (Verifier None (Some console_hook) tr) msg = []"
  by (simp_all add: quiet_debug_def collecting_def debug_events_def Verifier_def
      console_hook_def)

text \<open>
  C1, as amended. When the manifest loads and its declared name differs from the
  requested name, and the hooks return, \<^verbatim>\<open>verify\<close> builds the message from the declared
  name and ends at once, without calling \<^verbatim>\<open>verifyPackage\<close>: the instance is as before
  but for the log. If the declared name converts to a string \<open>s\<close>, the mismatch is
  reported through the error hook and \<^verbatim>\<open>verify\<close> returns; the log gains the trace line
  (if tracing), the read of the manifest and the error. If the conversion throws (the
  name is an object with a key \<^verbatim>\<open>toString\<close> of its own, or an array holding one), that
  TypeError leaves \<^verbatim>\<open>verify\<close> and the error hook is not called. No depth of recursion
  is needed (any \<open>fuel\<close> will do).
\<close>

theorem verify_name_mismatch_returns:
  assumes "resolve h name dirname = Some moddir" and "moddir \<noteq> []"
    and "read h moddir \<noteq> JNum (- 1)" and "read h moddir \<noteq> JNum (- 2)"
    and "get_prop (read h moddir) ''name'' = Inr nm" and "nm \<noteq> Some (JStr name)"
    and "quiet_debug v" and "collecting v"
  shows "verify fuel h name dirname v =
         (case ToString h nm of
            Inl e \<Rightarrow>
              Raise e
                (logs (debug_events v (''Opening main package.json in '' @ moddir @ ''.'')
                       @ [ReadFile (Path_resolve h [moddir, ''package.json''])])
                   v)
          | Inr s \<Rightarrow>
              Ok (logs (debug_events v (''Opening main package.json in '' @ moddir @ ''.'')
                        @ [ReadFile (Path_resolve h [moddir, ''package.json'']),
                           Err (''Package name mismatch: '' @ name @ '' != '' @ s @ ''.'')])
                    v))"
  using assms
  by (simp add: verify_def debug_quiet error_collecting Let_def log_is_logs logs_logs
      split: sum.splits)

theorem verify_name_mismatch_returns_witness:
  "resolve host_w ''app'' ''/w'' = Some ''/w/node_modules/app''
   \<and> get_prop (read host_w ''/w/node_modules/app'') ''name'' = Inr (Some (JStr ''other''))
   \<and> verify 0 host_w ''app'' ''/w'' (Verifier None (Some console_hook) []) =
       Ok (logs [ReadFile ''/w/node_modules/app/package.json'',
                 Err ''Package name mismatch: app != other.'']
             (Verifier None (Some console_hook) []))"
proof -
  have r: "resolve host_w ''app'' ''/w'' = Some ''/w/node_modules/app''"
    by code_simp
  have n: "get_prop (read host_w ''/w/node_modules/app'') ''name'' = Inr (Some (JStr ''other''))"
    by code_simp
  have s1: "read host_w ''/w/node_modules/app'' \<noteq> JNum (- 1)"
    and s2: "read host_w ''/w/node_modules/app'' \<noteq> JNum (- 2)"
    by code_simp+
  have p: "Path_resolve host_w [''/w/node_modules/app'', ''package.json'']
           = ''/w/node_modules/app/package.json''"
    by code_simp
  show ?thesis
    using r n
      verify_name_mismatch_returns [OF r _ s1 s2 n _ warn_policy(1) [of "[]"]
        warn_policy(2) [of "[]"], where fuel = 0]
    by (simp add: p warn_policy(3))
qed

text \<open>
  The other branch, on a concrete input: the declared name of \<^verbatim>\<open>app\<close> is an object
  with a key \<^verbatim>\<open>toString\<close>. Building the message throws, the error hook is not called,
  and the directory is not visited.
\<close>

lemma verify_name_mismatch_conversion_throws:
  "(case verify 3 host_t ''app'' ''/w'' (Verifier None (Some console_hook) []) of
      Raise e w \<Rightarrow> e = TypeError ''toString''
    | Ok w \<Rightarrow> False
    | OutOfFuel \<Rightarrow> False)
   \<and> trace_of (verify 3 host_t ''app'' ''/w'' (Verifier None (Some console_hook) [])) =
       [ReadFile ''/w/node_modules/app/package.json'']
   \<and> ''/w/node_modules/app''
       \<notin> cache_of (verify 3 host_t ''app'' ''/w'' (Verifier None (Some console_hook) []))"
  by code_simp

text \<open>
  C1, as stated, fails. The manifest found for \<^verbatim>\<open>app\<close> declares the name \<^verbatim>\<open>other\<close> and
  a dependency \<^verbatim>\<open>gone\<close> that is not installed. With an error hook that returns,
  \<^verbatim>\<open>verify\<close> reports the mismatch and nothing else, and the directory is not visited;
  \<^verbatim>\<open>verifyPackage\<close> on that manifest would have visited it and reported the missing
  dependency.
\<close>

theorem verify_name_mismatch_skips_package:
  "returned (verify 3 host_w ''app'' ''/w'' (Verifier None (Some console_hook) []))
   \<and> trace_of (verify 3 host_w ''app'' ''/w'' (Verifier None (Some console_hook) [])) =
       [ReadFile ''/w/node_modules/app/package.json'',
        Err ''Package name mismatch: app != other.'']
   \<and> ''/w/node_modules/app''
       \<notin> cache_of (verify 3 host_w ''app'' ''/w'' (Verifier None (Some console_hook) []))
   \<and> trace_of (verifyPackage 3 host_w (read host_w ''/w/node_modules/app'')
                 ''/w/node_modules/app'' (Verifier None (Some console_hook) [])) =
       [Visit ''/w/node_modules/app'', Err ''Missing dependency: gone@1.0.0.'']"
  by code_simp

lemma last_decimal: "last (decimal n) = char_of (48 + n mod 10)"
proof (cases "n < 10")
  case True
  then show ?thesis by (subst decimal.simps) simp
next
  case False
  then show ?thesis by (subst decimal.simps) simp
qed

lemma decimal_ends_in_digit:
  assumes "decimal n = s"
  shows "\<exists>d::nat. d < 10 \<and> last s = char_of (48 + d)"
proof -
  have "n mod 10 < 10" by simp
  with assms show ?thesis using last_decimal [of n] by blast
qed

lemma decimal_not_name: "decimal n \<noteq> ''name''"
proof
  assume "decimal n = ''name''"
  then obtain d :: nat where d: "d < 10" and "last ''name'' = char_of (48 + d)"
    using decimal_ends_in_digit by blast
  then have "of_char (char_of (48 + d) :: char) = (of_char (CHR ''e'') :: nat)" by simp
  moreover from d have "48 + d < 256" by arith
  ultimately have "48 + d = (101::nat)" by (simp add: of_char_of)
  with d show False by arith
qed

lemma decimal_not_version: "decimal n \<noteq> ''version''"
proof
  assume "decimal n = ''version''"
  then obtain d :: nat where d: "d < 10" and "last ''version'' = char_of (48 + d)"
    using decimal_ends_in_digit by blast
  then have "of_char (char_of (48 + d) :: char) = (of_char (CHR ''n'') :: nat)" by simp
  moreover from d have "48 + d < 256" by arith
  ultimately have "48 + d = (110::nat)" by (simp add: of_char_of)
  with d show False by arith
qed

lemma name_read_of_object:
  assumes "get_prop pkg ''name'' = Inr (Some (JStr name))"
  shows "truthy (Some pkg) \<and> typeof (Some pkg) = ''object''"
proof (cases pkg)
  case (JStr s)
  have "''name'' \<notin> set (map decimal [0..<length s])"
  proof
    assume "''name'' \<in> set (map decimal [0..<length s])"
    then obtain n where "decimal n = ''name''" by auto
    with decimal_not_name show False by blast
  qed
  then have "map_of (zip (map decimal [0..<length s]) (map (\<lambda>c. JStr [c]) s)) ''name'' = None"
    by (subst map_of_zip_is_None) simp_all
  with assms JStr show ?thesis by simp
qed (use assms in simp_all)

lemma version_read_of_object:
  assumes "get_prop pkg ''version'' = Inr (Some (JStr version))"
  shows "truthy (Some pkg) \<and> pkg \<noteq> JNum (- 1) \<and> pkg \<noteq> JNum (- 2)"
proof (cases pkg)
  case (JStr s)
  have "''version'' \<notin> set (map decimal [0..<length s])"
  proof
    assume "''version'' \<in> set (map decimal [0..<length s])"
    then obtain n where "decimal n = ''version''" by auto
    with decimal_not_version show False by blast
  qed
  then have "map_of (zip (map decimal [0..<length s]) (map (\<lambda>c. JStr [c]) s)) ''version''
             = None"
    by (subst map_of_zip_is_None) simp_all
  with assms JStr show ?thesis by simp
qed (use assms in simp_all)

text \<open>
  C10. When the manifest file parses to \<^verbatim>\<open>null\<close>, \<^verbatim>\<open>verify\<close> ends with the TypeError of
  reading \<^verbatim>\<open>pkg.name\<close>: the log gains the trace line (if tracing) and the read of the
  file, and no call of the error hook. And for every input \<^verbatim>\<open>verify\<close> does what it
  does with the guard \<^verbatim>\<open>if (!pkg || typeof pkg !== 'object')\<close> taken out: the guard is
  never reached with a manifest that fails it.
\<close>

theorem verify_reads_name_before_object_guard:
  "(resolve h name dirname = Some moddir \<and> moddir \<noteq> [] \<and> read h moddir = JNull
      \<and> quiet_debug v
      \<longrightarrow> verify fuel h name dirname v =
          Raise (TypeError ''name'')
            (logs (debug_events v (''Opening main package.json in '' @ moddir @ ''.'')
                   @ [ReadFile (Path_resolve h [moddir, ''package.json''])]) v))
   \<and> verify fuel h name dirname v = verify_no_object_guard fuel h name dirname v"
proof
  show "resolve h name dirname = Some moddir \<and> moddir \<noteq> [] \<and> read h moddir = JNull
      \<and> quiet_debug v
      \<longrightarrow> verify fuel h name dirname v =
          Raise (TypeError ''name'')
            (logs (debug_events v (''Opening main package.json in '' @ moddir @ ''.'')
                   @ [ReadFile (Path_resolve h [moddir, ''package.json''])]) v)"
    by (simp add: verify_def debug_quiet Let_def log_is_logs logs_logs)
next
  have guard: "\<And>pkg nm. get_prop pkg ''name'' = Inr nm \<Longrightarrow> nm = Some (JStr name)
      \<Longrightarrow> \<not> (\<not> truthy (Some pkg) \<or> typeof (Some pkg) \<noteq> ''object'')"
    using name_read_of_object by blast
  show "verify fuel h name dirname v = verify_no_object_guard fuel h name dirname v"
    unfolding verify_def verify_no_object_guard_def Let_def
    by (auto split: option.splits sum.splits intro!: arg_cong2 [where f = andThen] ext
          dest: guard)
qed

theorem verify_reads_name_before_object_guard_witness:
  "resolve host_p ''nil'' ''/p'' = Some ''/p/node_modules/nil''
   \<and> read host_p ''/p/node_modules/nil'' = JNull
   \<and> verify 3 host_p ''nil'' ''/p'' (Verifier None (Some console_hook) []) =
       Raise (TypeError ''name'')
         (logs [ReadFile ''/p/node_modules/nil/package.json'']
            (Verifier None (Some console_hook) []))
   \<and> verify 3 host_p ''nil'' ''/p'' (Verifier None (Some console_hook) []) =
       verify_no_object_guard 3 host_p ''nil'' ''/p'' (Verifier None (Some console_hook) [])"
proof -
  have r: "resolve host_p ''nil'' ''/p'' = Some ''/p/node_modules/nil''"
    by code_simp
  have n: "read host_p ''/p/node_modules/nil'' = JNull"
    by code_simp
  have p: "Path_resolve host_p [''/p/node_modules/nil'', ''package.json'']
           = ''/p/node_modules/nil/package.json''"
    by code_simp
  show ?thesis
    using r n warn_policy(1) [of "[]"]
      verify_reads_name_before_object_guard [of host_p "''nil''" "''/p''"
        "''/p/node_modules/nil''" "Verifier None (Some console_hook) []" 3]
    by (auto simp: p warn_policy(3))
qed

text \<open>
  C7. For a dependency declaration that reaches the resolver (a non-empty name that is
  neither scoped nor a URL, with a string as its range) and whose name does not
  resolve from the dependent's directory: from \<^verbatim>\<open>optionalDependencies\<close>, when the debug
  hook returns, only the trace line (if tracing) is logged and the loop goes on with
  the remaining names; from any other field, the error \<^verbatim>\<open>Missing dependency\<close> is
  reported: through the error hook, after which (the hook returning) the loop goes on,
  or, without an error hook, as the Error thrown.
\<close>

theorem unresolved_dependency_report:
  assumes "name \<noteq> []" and "name ! 0 \<noteq> CHR ''@''" and "indexOf name ''://'' = - 1"
    and "get_prop deps name = Inr (Some (JStr expect))"
    and "resolve h name dirname = None"
  shows "(field = ''optionalDependencies'' \<and> quiet_debug v \<longrightarrow>
            for_each (verifyDep h rec field deps dirname) (name # names) v =
            for_each (verifyDep h rec field deps dirname) names
              (logs (debug_events v (''Missing optional dependency: '' @ name @ ''@''
                                      @ expect @ ''.'')) v))
       \<and> (field \<noteq> ''optionalDependencies'' \<and> collecting v \<longrightarrow>
            for_each (verifyDep h rec field deps dirname) (name # names) v =
            for_each (verifyDep h rec field deps dirname) names
              (logs [Err (''Missing dependency: '' @ name @ ''@'' @ expect @ ''.'')] v))
       \<and> (field \<noteq> ''optionalDependencies'' \<and> opt_error v = None \<longrightarrow>
            for_each (verifyDep h rec field deps dirname) (name # names) v =
            Raise (Error (''Missing dependency: '' @ name @ ''@'' @ expect @ ''.'')) v)"
  using assms
  by (simp add: verifyDep_def debug_quiet error_collecting error_default)

theorem unresolved_dependency_report_witness:
  "resolve host_p ''gone'' ''/p/node_modules/app'' = None
   \<and> for_each (verifyDep host_p (verifyPackage 2 host_p) ''optionalDependencies''
                 (JObj [(''gone'', JStr ''1.0.0'')]) ''/p/node_modules/app'') [''gone'']
         (Verifier (Some console_hook) (Some console_hook) [])
       = Ok (logs [Dbg ''Missing optional dependency: gone@1.0.0.'']
               (Verifier (Some console_hook) (Some console_hook) []))
   \<and> for_each (verifyDep host_p (verifyPackage 2 host_p) ''dependencies''
                 (JObj [(''gone'', JStr ''1.0.0'')]) ''/p/node_modules/app'') [''gone'']
         (Verifier (Some console_hook) (Some console_hook) [])
       = Ok (logs [Err ''Missing dependency: gone@1.0.0.'']
               (Verifier (Some console_hook) (Some console_hook) []))
   \<and> for_each (verifyDep host_p (verifyPackage 2 host_p) ''peerDependencies''
                 (JObj [(''gone'', JStr ''1.0.0'')]) ''/p/node_modules/app'') [''gone'']
         (Verifier (Some console_hook) None [])
       = Raise (Error ''Missing dependency: gone@1.0.0.'') (Verifier (Some console_hook) None [])"
proof -
  have r: "resolve host_p ''gone'' ''/p/node_modules/app'' = None"
    by code_simp
  have i: "indexOf ''gone'' ''://'' = - 1"
    by code_simp
  have g: "get_prop (JObj [(''gone'', JStr ''1.0.0'')]) ''gone'' = Inr (Some (JStr ''1.0.0''))"
    by simp
  have q: "quiet_debug (Verifier (Some console_hook) (Some console_hook) [])"
    and c: "collecting (Verifier (Some console_hook) (Some console_hook) [])"
    and d: "\<And>msg. debug_events (Verifier (Some console_hook) (Some console_hook) []) msg
             = [Dbg msg]"
    and e: "opt_error (Verifier (Some console_hook) None []) = None"
    by (simp_all add: quiet_debug_def collecting_def debug_events_def Verifier_def
        console_hook_def)
  note t = unresolved_dependency_report [OF _ _ i g r, where rec = "verifyPackage 2 host_p"
      and names = "[]"]
  show ?thesis
    using r q c e
      t [where field = "''optionalDependencies''"
           and v = "Verifier (Some console_hook) (Some console_hook) []"]
      t [where field = "''dependencies''"
           and v = "Verifier (Some console_hook) (Some console_hook) []"]
      t [where field = "''peerDependencies''" and v = "Verifier (Some console_hook) None []"]
    by (simp add: d)
qed

lemma verifyDep_found:
  assumes "name \<noteq> []" and "name ! 0 \<noteq> CHR ''@''" and "indexOf name ''://'' = - 1"
    and "get_prop deps name = Inr (Some (JStr expect))"
    and "resolve h name dirname = Some moddir" and "moddir \<noteq> []"
    and "get_prop (read h moddir) ''version'' = Inr (Some (JStr version))"
  shows "verifyDep h rec field deps dirname name v =
         andThen (debug (''Opening sub package.json in '' @ moddir @ ''.'') v)
           (\<lambda>v. andThen
                  (if \<not> semver_valid h version
                   then error (''Invalid version for '' @ name @ ''@'' @ expect @ '': ''
                               @ version @ ''.'')
                          (log (ReadFile (Path_resolve h [moddir, ''package.json''])) v)
                   else if \<not> semver_satisfies h version expect
                   then error (''Unmet dependency version '' @ name @ ''@'' @ expect @ '': ''
                               @ version @ ''.'')
                          (log (ReadFile (Path_resolve h [moddir, ''package.json''])) v)
                   else Ok (log (ReadFile (Path_resolve h [moddir, ''package.json''])) v))
                  (\<lambda>v. andThen
                         (debug (''Valid version: '' @ name @ ''@'' @ version
                                 @ '' satisfies '' @ expect @ ''.'') v)
                         (rec (read h moddir) moddir)))"
  using assms version_read_of_object [OF assms(7)]
  by (simp add: verifyDep_def Let_def cong: if_cong)

text \<open>
  C8. For a dependency that resolves and whose manifest loads with a string
  \<^verbatim>\<open>version\<close>, the debug hook returning. With an error hook that returns, the events
  logged before \<^verbatim>\<open>verifyPackage\<close> is called on the dependency are: the trace line, the
  read, then \<^verbatim>\<open>Invalid version\<close> when the version is not valid (whatever
  \<^verbatim>\<open>semver.satisfies\<close> says of the range, and no \<^verbatim>\<open>Unmet dependency version\<close>),
  \<^verbatim>\<open>Unmet dependency version\<close> when it is valid and does not satisfy the range, no
  error when it is valid and satisfies it, then the trace line. Without an error hook
  the same error is the Error thrown, and none is thrown when both checks pass.
\<close>

theorem version_check_reports:
  assumes "name \<noteq> []" and "name ! 0 \<noteq> CHR ''@''" and "indexOf name ''://'' = - 1"
    and "get_prop deps name = Inr (Some (JStr expect))"
    and "resolve h name dirname = Some moddir" and "moddir \<noteq> []"
    and "get_prop (read h moddir) ''version'' = Inr (Some (JStr version))"
    and "quiet_debug v"
  shows "(collecting v \<longrightarrow>
            verifyDep h rec field deps dirname name v =
            rec (read h moddir) moddir
              (logs (debug_events v (''Opening sub package.json in '' @ moddir @ ''.'')
                     @ [ReadFile (Path_resolve h [moddir, ''package.json''])]
                     @ (if \<not> semver_valid h version
                        then [Err (''Invalid version for '' @ name @ ''@'' @ expect @ '': ''
                                   @ version @ ''.'')]
                        else if \<not> semver_satisfies h version expect
                        then [Err (''Unmet dependency version '' @ name @ ''@'' @ expect
                                   @ '': '' @ version @ ''.'')]
                        else [])
                     @ debug_events v (''Valid version: '' @ name @ ''@'' @ version
                                       @ '' satisfies '' @ expect @ ''.'')) v))
       \<and> (opt_error v = None \<longrightarrow>
            verifyDep h rec field deps dirname name v =
            (if \<not> semver_valid h version
             then Raise (Error (''Invalid version for '' @ name @ ''@'' @ expect @ '': ''
                                @ version @ ''.''))
                    (logs (debug_events v (''Opening sub package.json in '' @ moddir @ ''.'')
                           @ [ReadFile (Path_resolve h [moddir, ''package.json''])]) v)
             else if \<not> semver_satisfies h version expect
             then Raise (Error (''Unmet dependency version '' @ name @ ''@'' @ expect @ '': ''
                                @ version @ ''.''))
                    (logs (debug_events v (''Opening sub package.json in '' @ moddir @ ''.'')
                           @ [ReadFile (Path_resolve h [moddir, ''package.json''])]) v)
             else rec (read h moddir) moddir
                    (logs (debug_events v (''Opening sub package.json in '' @ moddir @ ''.'')
                           @ [ReadFile (Path_resolve h [moddir, ''package.json''])]
                           @ debug_events v (''Valid version: '' @ name @ ''@'' @ version
                                             @ '' satisfies '' @ expect @ ''.'')) v)))"
  using assms(8)
  by (simp add: verifyDep_found [OF assms(1-7)] debug_quiet error_collecting error_default
        log_is_logs logs_logs)

theorem version_check_reports_witness:
  "\<not> semver_valid host_p ''banana''
   \<and> semver_valid host_p ''2.0.0'' \<and> \<not> semver_satisfies host_p ''2.0.0'' ''^1.0.0''
   \<and> semver_valid host_c ''1.0.0'' \<and> semver_satisfies host_c ''1.0.0'' ''*''
   \<and> verifyDep host_p (\<lambda>pkg moddir. Ok) ''dependencies''
         (JObj [(''odd'', JStr ''*''), (''left-pad'', JStr ''^1.0.0'')])
         ''/p/node_modules/app'' ''odd'' (Verifier None (Some console_hook) [])
       = Ok (logs [ReadFile ''/p/node_modules/odd/package.json'',
                   Err ''Invalid version for odd@*: banana.'']
               (Verifier None (Some console_hook) []))
   \<and> verifyDep host_p (\<lambda>pkg moddir. Ok) ''dependencies''
         (JObj [(''odd'', JStr ''*''), (''left-pad'', JStr ''^1.0.0'')])
         ''/p/node_modules/app'' ''left-pad'' (Verifier None (Some console_hook) [])
       = Ok (logs [ReadFile ''/p/node_modules/left-pad/package.json'',
                   Err ''Unmet dependency version left-pad@^1.0.0: 2.0.0.'']
               (Verifier None (Some console_hook) []))
   \<and> verifyDep host_c (\<lambda>pkg moddir. Ok) ''dependencies'' (JObj [(''b'', JStr ''*'')])
         ''/c/node_modules/a'' ''b'' (Verifier None (Some console_hook) [])
       = Ok (logs [ReadFile ''/c/node_modules/b/package.json'']
               (Verifier None (Some console_hook) []))
   \<and> verifyDep host_p (\<lambda>pkg moddir. Ok) ''dependencies''
         (JObj [(''odd'', JStr ''*''), (''left-pad'', JStr ''^1.0.0'')])
         ''/p/node_modules/app'' ''left-pad'' (Verifier None None [])
       = Raise (Error ''Unmet dependency version left-pad@^1.0.0: 2.0.0.'')
           (logs [ReadFile ''/p/node_modules/left-pad/package.json''] (Verifier None None []))"
proof -
  let ?deps = "JObj [(''odd'', JStr ''*''), (''left-pad'', JStr ''^1.0.0'')]"
  have sv: "\<not> semver_valid host_p ''banana''" "semver_valid host_p ''2.0.0''"
    "\<not> semver_satisfies host_p ''2.0.0'' ''^1.0.0''"
    "semver_valid host_c ''1.0.0''" "semver_satisfies host_c ''1.0.0'' ''*''"
    by code_simp+
  have i: "indexOf ''odd'' ''://'' = - 1" "indexOf ''left-pad'' ''://'' = - 1"
    "indexOf ''b'' ''://'' = - 1"
    by code_simp+
  have g: "get_prop ?deps ''odd'' = Inr (Some (JStr ''*''))"
    "get_prop ?deps ''left-pad'' = Inr (Some (JStr ''^1.0.0''))"
    "get_prop (JObj [(''b'', JStr ''*'')]) ''b'' = Inr (Some (JStr ''*''))"
    by simp_all
  have r: "resolve host_p ''odd'' ''/p/node_modules/app'' = Some ''/p/node_modules/odd''"
    "resolve host_p ''left-pad'' ''/p/node_modules/app'' = Some ''/p/node_modules/left-pad''"
    "resolve host_c ''b'' ''/c/node_modules/a'' = Some ''/c/node_modules/b''"
    by code_simp+
  have ver: "get_prop (read host_p ''/p/node_modules/odd'') ''version''
             = Inr (Some (JStr ''banana''))"
    "get_prop (read host_p ''/p/node_modules/left-pad'') ''version''
             = Inr (Some (JStr ''2.0.0''))"
    "get_prop (read host_c ''/c/node_modules/b'') ''version'' = Inr (Some (JStr ''1.0.0''))"
    by code_simp+
  have p: "Path_resolve host_p [''/p/node_modules/odd'', ''package.json'']
           = ''/p/node_modules/odd/package.json''"
    "Path_resolve host_p [''/p/node_modules/left-pad'', ''package.json'']
           = ''/p/node_modules/left-pad/package.json''"
    "Path_resolve host_c [''/c/node_modules/b'', ''package.json'']
           = ''/c/node_modules/b/package.json''"
    by code_simp+
  have q: "quiet_debug (Verifier None None [])" "opt_error (Verifier None None []) = None"
    "\<And>msg. debug_events (Verifier None None []) msg = []"
    by (simp_all add: quiet_debug_def debug_events_def Verifier_def)
  note w = warn_policy [of "[]"]
  show ?thesis
    using sv w(2) q(2)
      version_check_reports [OF _ _ i(1) g(1) r(1) _ ver(1) w(1),
        where rec = "\<lambda>pkg moddir. Ok" and field = "''dependencies''"]
      version_check_reports [OF _ _ i(2) g(2) r(2) _ ver(2) w(1),
        where rec = "\<lambda>pkg moddir. Ok" and field = "''dependencies''"]
      version_check_reports [OF _ _ i(3) g(3) r(3) _ ver(3) w(1),
        where rec = "\<lambda>pkg moddir. Ok" and field = "''dependencies''"]
      version_check_reports [OF _ _ i(2) g(2) r(2) _ ver(2) q(1),
        where rec = "\<lambda>pkg moddir. Ok" and field = "''dependencies''"]
    by (simp add: p w(3) q(3))
qed

text \<open>
  C9. For a dependency that resolves and whose manifest loads with a string
  \<^verbatim>\<open>version\<close> that is not valid or does not satisfy the range, the hooks returning:
  after the error is reported, \<^verbatim>\<open>verifyPackage\<close> (here \<open>rec\<close>) is called on the
  dependency's manifest and directory, in the state whose log has the error.
\<close>

theorem version_error_still_recurses:
  assumes "name \<noteq> []" and "name ! 0 \<noteq> CHR ''@''" and "indexOf name ''://'' = - 1"
    and "get_prop deps name = Inr (Some (JStr expect))"
    and "resolve h name dirname = Some moddir" and "moddir \<noteq> []"
    and "get_prop (read h moddir) ''version'' = Inr (Some (JStr version))"
    and "\<not> semver_valid h version \<or> \<not> semver_satisfies h version expect"
    and "quiet_debug v" and "collecting v"
  shows "verifyDep h rec field deps dirname name v =
         rec (read h moddir) moddir
           (logs (debug_events v (''Opening sub package.json in '' @ moddir @ ''.'')
                  @ [ReadFile (Path_resolve h [moddir, ''package.json'']),
                     Err (if \<not> semver_valid h version
                          then ''Invalid version for '' @ name @ ''@'' @ expect @ '': ''
                               @ version @ ''.''
                          else ''Unmet dependency version '' @ name @ ''@'' @ expect @ '': ''
                               @ version @ ''.'')]
                  @ debug_events v (''Valid version: '' @ name @ ''@'' @ version
                                    @ '' satisfies '' @ expect @ ''.'')) v)"
proof (cases "semver_valid h version")
  case False
  with assms(9,10) show ?thesis
    by (simp add: verifyDep_found [OF assms(1-7)] debug_quiet error_collecting
          log_is_logs logs_logs)
next
  case True
  with assms(8) have "\<not> semver_satisfies h version expect" by simp
  with True assms(9,10) show ?thesis
    by (simp add: verifyDep_found [OF assms(1-7)] debug_quiet error_collecting
          log_is_logs logs_logs)
qed

theorem version_error_still_recurses_witness:
  "\<not> semver_satisfies host_p ''2.0.0'' ''^1.0.0''
   \<and> verifyDep host_p (verifyPackage 1 host_p) ''dependencies''
         (JObj [(''left-pad'', JStr ''^1.0.0'')])
         ''/p/node_modules/app'' ''left-pad'' (Verifier None (Some console_hook) [])
       = verifyPackage 1 host_p (read host_p ''/p/node_modules/left-pad'')
           ''/p/node_modules/left-pad''
           (logs [ReadFile ''/p/node_modules/left-pad/package.json'',
                  Err ''Unmet dependency version left-pad@^1.0.0: 2.0.0.'']
              (Verifier None (Some console_hook) []))
   \<and> (case verifyDep host_p (verifyPackage 1 host_p) ''dependencies''
              (JObj [(''left-pad'', JStr ''^1.0.0'')])
              ''/p/node_modules/app'' ''left-pad'' (Verifier None (Some console_hook) []) of
         Ok v \<Rightarrow>
           trace v = [ReadFile ''/p/node_modules/left-pad/package.json'',
                      Err ''Unmet dependency version left-pad@^1.0.0: 2.0.0.'',
                      Visit ''/p/node_modules/left-pad'',
                      Err ''Missing dependency: sub@^1.0.0.'']
       | Raise e v \<Rightarrow> False
       | OutOfFuel \<Rightarrow> False)"
proof -
  let ?deps = "JObj [(''left-pad'', JStr ''^1.0.0'')]"
  have sv: "semver_valid host_p ''2.0.0''" "\<not> semver_satisfies host_p ''2.0.0'' ''^1.0.0''"
    by code_simp+
  have i: "indexOf ''left-pad'' ''://'' = - 1"
    by code_simp
  have g: "get_prop ?deps ''left-pad'' = Inr (Some (JStr ''^1.0.0''))"
    by simp
  have r: "resolve host_p ''left-pad'' ''/p/node_modules/app'' = Some ''/p/node_modules/left-pad''"
    by code_simp
  have ver: "get_prop (read host_p ''/p/node_modules/left-pad'') ''version''
             = Inr (Some (JStr ''2.0.0''))"
    by code_simp
  have p: "Path_resolve host_p [''/p/node_modules/left-pad'', ''package.json'']
           = ''/p/node_modules/left-pad/package.json''"
    by code_simp
  note w = warn_policy [of "[]"]
  have run: "(case verifyDep host_p (verifyPackage 1 host_p) ''dependencies'' ?deps
              ''/p/node_modules/app'' ''left-pad'' (Verifier None (Some console_hook) []) of
         Ok v \<Rightarrow>
           trace v = [ReadFile ''/p/node_modules/left-pad/package.json'',
                      Err ''Unmet dependency version left-pad@^1.0.0: 2.0.0.'',
                      Visit ''/p/node_modules/left-pad'',
                      Err ''Missing dependency: sub@^1.0.0.'']
       | Raise e v \<Rightarrow> False
       | OutOfFuel \<Rightarrow> False)"
    by code_simp
  show ?thesis
    using sv run
      version_error_still_recurses [OF _ _ i g r _ ver _ w(1) w(2),
        where rec = "verifyPackage 1 host_p" and field = "''dependencies''"]
    by (simp add: p w(3))
qed

section \<open>Termination and the visited set\<close>

lemma visits_append [simp]: "visits (xs @ ys) = visits xs @ visits ys"
  by (induction xs rule: visits.induct) simp_all

lemma extends_refl [simp]: "extends v v"
  by (simp add: extends_def)

lemma extends_trans: "extends v v' \<Longrightarrow> extends v' v'' \<Longrightarrow> extends v v''"
  by (auto simp: extends_def)

lemma extends_log [simp]:
  "extends v (log (Dbg m) v)" "extends v (log (Err m) v)" "extends v (log (ReadFile f) v)"
  by (simp_all add: extends_def visited_once_def)

lemma good_mono: "extends v w \<Longrightarrow> good r w \<Longrightarrow> good r v"
  by (auto simp: good_def split: option.splits intro: extends_trans)

lemma alike_mono: "extends v w \<Longrightarrow> alike w r r' \<Longrightarrow> alike v r r'"
  by (auto simp: alike_def intro: good_mono)

lemma good_Ok [simp]: "good (Ok v') v = extends v v'"
  by (simp add: good_def)

lemma good_Raise [simp]: "good (Raise e v') v = extends v v'"
  by (simp add: good_def)

lemma good_OutOfFuel [simp]: "\<not> good OutOfFuel v"
  by (simp add: good_def)

lemma good_debug [simp]: "good (debug m v) v"
  by (simp add: debug_def split: option.splits)

lemma good_error [simp]: "good (error m v) v"
  by (simp add: error_def split: option.splits)

lemma alike_same: "good r v \<Longrightarrow> alike v r r"
  by (simp add: alike_def)

lemma good_andThen:
  assumes "good r v" and "\<And>v'. extends v v' \<Longrightarrow> good (f v') v'"
  shows "good (andThen r f) v"
proof (cases r)
  case (Ok v')
  with assms(1) have e: "extends v v'" by simp
  from assms(2) [OF e] have "good (f v') v'" .
  with e Ok show ?thesis by (auto intro: good_mono)
next
  case (Raise e v')
  with assms(1) show ?thesis by simp
next
  case OutOfFuel
  with assms(1) show ?thesis by simp
qed

lemma alike_andThen:
  assumes "alike v r r'" and "\<And>v'. extends v v' \<Longrightarrow> alike v' (f v') (f' v')"
  shows "alike v (andThen r f) (andThen r' f')"
proof -
  from assms(1) have eq: "r' = r" and g: "good r v" by (auto simp: alike_def)
  have "good (andThen r f) v"
  proof (rule good_andThen [OF g])
    fix v' assume "extends v v'"
    from assms(2) [OF this] show "good (f v') v'" unfolding alike_def by blast
  qed
  moreover have "andThen r f = andThen r f'"
  proof (cases r)
    case (Ok v')
    with g have "extends v v'" by simp
    from assms(2) [OF this] have "f v' = f' v'" unfolding alike_def by blast
    with Ok show ?thesis by simp
  qed simp_all
  ultimately show ?thesis by (simp add: alike_def eq)
qed

lemma card_after:
  assumes "finite E" and "extends v v'" and "card (E - cache v) < n"
  shows "card (E - cache v') < n"
proof -
  from assms(2) have "E - cache v' \<subseteq> E - cache v" by (auto simp: extends_def)
  with assms(1) have "card (E - cache v') \<le> card (E - cache v)" by (intro card_mono) auto
  with assms(3) show ?thesis by simp
qed

lemma for_each_alike:
  assumes fin: "finite E"
    and body: "\<And>x w. card (E - cache w) < n \<Longrightarrow> alike w (body x w) (body' x w)"
    and "card (E - cache v) < n"
  shows "alike v (for_each body xs v) (for_each body' xs v)"
  using assms(3)
proof (induction xs arbitrary: v)
  case Nil
  show ?case by (simp add: alike_def)
next
  case (Cons x xs)
  show ?case
    unfolding for_each.simps
  proof (rule alike_andThen)
    show "alike v (body x v) (body' x v)" by (rule body [OF Cons.prems])
  next
    fix v' assume e: "extends v v'"
    have "card (E - cache v') < n" by (rule card_after [OF fin e Cons.prems])
    then show "alike v' (for_each body xs v') (for_each body' xs v')" by (rule Cons.IH)
  qed
qed

lemma resolve_paths_existing: "resolve_paths h name paths = Some d \<Longrightarrow> d \<in> existing h"
  by (induction paths) (auto simp: existing_def Let_def split: if_splits)

lemma resolve_existing: "resolve h name dirname = Some d \<Longrightarrow> d \<in> existing h"
  by (auto simp: resolve_def existing_def Let_def split: if_splits
      dest: resolve_paths_existing)


lemma alike_report [simp]:
  "alike v (error m v) (error m v)" "alike v (debug m v) (debug m v)"
  "alike v (Ok v) (Ok v)" "alike v (Raise e v) (Raise e v)"
  by (simp_all add: alike_def)

lemma good_after_read [simp]:
  "good (error m (log (ReadFile f) v)) v" "good (Ok (log (ReadFile f) v)) v"
  "good (Raise e (log (ReadFile f) v)) v"
  by (auto intro: good_mono [of v "log (ReadFile f) v"])

lemma alike_after_read [simp]:
  "alike v (error m (log (ReadFile f) v)) (error m (log (ReadFile f) v))"
  "alike v (Raise e (log (ReadFile f) v)) (Raise e (log (ReadFile f) v))"
  by (simp_all add: alike_def)

lemma verifyDep_alike:
  assumes fin: "finite (existing h)"
    and rec: "\<And>pkg d w. d \<in> existing h \<Longrightarrow> card (existing h - cache w) < n
                \<Longrightarrow> alike w (rec pkg d w) (rec' pkg d w)"
    and v: "card (existing h - cache v) < n"
  shows "alike v (verifyDep h rec field deps dirname name v)
           (verifyDep h rec' field deps dirname name v)"
proof -
  have tail: "alike w (andThen r (\<lambda>v. andThen (debug m v) (rec pkg d)))
                (andThen r (\<lambda>v. andThen (debug m v) (rec' pkg d)))"
    if d: "d \<in> existing h" and w: "card (existing h - cache w) < n" and r: "good r w"
    for w r m pkg d
  proof (rule alike_andThen)
    show "alike w r r" using r by (rule alike_same)
  next
    fix w' assume e: "extends w w'"
    have w': "card (existing h - cache w') < n" by (rule card_after [OF fin e w])
    show "alike w' (andThen (debug m w') (rec pkg d)) (andThen (debug m w') (rec' pkg d))"
    proof (rule alike_andThen)
      show "alike w' (debug m w') (debug m w')" by simp
    next
      fix w'' assume e': "extends w' w''"
      have "card (existing h - cache w'') < n" by (rule card_after [OF fin e' w'])
      with d show "alike w'' (rec pkg d w'') (rec' pkg d w'')" by (rule rec)
    qed
  qed
  show ?thesis
  proof (cases "resolve h name dirname")
    case None
    then show ?thesis
      by (simp add: verifyDep_def split: sum.splits)
  next
    case (Some moddir)
    then have d: "moddir \<in> existing h" by (rule resolve_existing)
    show ?thesis
      unfolding verifyDep_def Some option.case
      apply (simp split: sum.splits)
      apply (intro conjI impI allI)
      apply (rule alike_andThen)
       apply simp
      apply (auto simp del: andThen_Ok simp: Let_def split: sum.splits
          intro!: tail d card_after [OF fin _ v])
      done
  qed
qed


lemma verifyField_alike:
  assumes fin: "finite (existing h)"
    and rec: "\<And>pkg d w. d \<in> existing h \<Longrightarrow> card (existing h - cache w) < n
                \<Longrightarrow> alike w (rec pkg d w) (rec' pkg d w)"
    and v: "card (existing h - cache v) < n"
  shows "alike v (verifyField h rec pkg dirname field v) (verifyField h rec' pkg dirname field v)"
proof -
  have "alike v (verifyDeps h rec field d dirname v) (verifyDeps h rec' field d dirname v)" for d
    unfolding verifyDeps_def
    by (rule for_each_alike [OF fin _ v]) (rule verifyDep_alike [OF fin rec])
  then show ?thesis
    by (simp add: verifyField_def split: sum.splits option.splits)
qed

lemma extends_visit:
  assumes "d \<notin> cache v"
  shows "extends v (log (Visit d) (v\<lparr>cache := insert d (cache v)\<rparr>))"
  using assms by (auto simp: extends_def visited_once_def)

lemma extends_bindings: "extends v (v\<lparr>bindings := b\<rparr>)"
  by (simp add: extends_def visited_once_def)

lemma card_after_visit:
  assumes "finite E" and "d \<in> E" and "d \<notin> cache v" and "card (E - cache v) < Suc n"
  shows "card (E - insert d (cache v)) < n"
proof -
  have "E - insert d (cache v) = (E - cache v) - {d}" by auto
  moreover have "d \<in> E - cache v" using assms by simp
  moreover have "finite (E - cache v)" using assms(1) by simp
  ultimately have "card (E - insert d (cache v)) = card (E - cache v) - 1"
    by (simp add: card_Diff_singleton)
  moreover have "0 < card (E - cache v)"
    using \<open>finite (E - cache v)\<close> \<open>d \<in> E - cache v\<close> by (auto simp: card_gt_0_iff)
  ultimately show ?thesis using assms(4) by simp
qed

lemma verifyPackage_body_alike:
  assumes fin: "finite (existing h)"
    and rec: "\<And>pkg d w. d \<in> existing h \<Longrightarrow> card (existing h - cache w) < n
                \<Longrightarrow> alike w (rec pkg d w) (rec' pkg d w)"
    and d: "dirname \<in> existing h"
    and v: "card (existing h - cache v) < Suc n"
  shows "alike v (verifyPackage_body h rec pkg dirname v)
           (verifyPackage_body h rec' pkg dirname v)"
proof (cases "dirname \<in> cache v")
  case True
  then show ?thesis by (simp add: verifyPackage_body_def)
next
  case False
  define v1 where "v1 = log (Visit dirname) (v\<lparr>cache := insert dirname (cache v)\<rparr>)"
  define v2 where "v2 =
    (if hasBinding h dirname
     then v1\<lparr>bindings := insert (Path_basename h dirname) (bindings v1)\<rparr> else v1)"
  have e1: "extends v v1" unfolding v1_def by (rule extends_visit [OF False])
  have e2: "extends v1 v2" unfolding v2_def by (simp add: extends_bindings)
  have e: "extends v v2" by (rule extends_trans [OF e1 e2])
  have "card (existing h - cache v1) < n"
    unfolding v1_def using card_after_visit [OF fin d False v] by simp
  then have c2: "card (existing h - cache v2) < n" by (simp add: v2_def)
  have body: "alike v2
      (andThen (debug m1 v2)
         (\<lambda>v. andThen (for_each (verifyField h rec pkg dirname) fields v) (debug m2)))
      (andThen (debug m1 v2)
         (\<lambda>v. andThen (for_each (verifyField h rec' pkg dirname) fields v) (debug m2)))"
    for m1 m2
  proof (rule alike_andThen)
    show "alike v2 (debug m1 v2) (debug m1 v2)" by simp
  next
    fix w assume ew: "extends v2 w"
    have cw: "card (existing h - cache w) < n" by (rule card_after [OF fin ew c2])
    show "alike w
            (andThen (for_each (verifyField h rec pkg dirname) fields w) (debug m2))
            (andThen (for_each (verifyField h rec' pkg dirname) fields w) (debug m2))"
    proof (rule alike_andThen)
      show "alike w (for_each (verifyField h rec pkg dirname) fields w)
              (for_each (verifyField h rec' pkg dirname) fields w)"
        by (rule for_each_alike [OF fin _ cw]) (rule verifyField_alike [OF fin rec])
    next
      fix w' assume "extends w w'"
      show "alike w' (debug m2 w') (debug m2 w')" by simp
    qed
  qed
  have unfold: "verifyPackage_body h r pkg dirname v =
      (case get_prop pkg ''name'' of
         Inl e \<Rightarrow> Raise e v2
       | Inr nm \<Rightarrow>
           (case ToString h nm of
              Inl e \<Rightarrow> Raise e v2
            | Inr s \<Rightarrow>
                andThen (debug (''Verifying package '' @ s @ '' at '' @ dirname @ ''.'') v2)
                  (\<lambda>v.
                     andThen (for_each (verifyField h r pkg dirname) fields v)
                       (debug (''Package '' @ s @ '' is valid!'')))))" for r
    using False unfolding verifyPackage_body_def Let_def v2_def v1_def by simp
  have "alike v2 (verifyPackage_body h rec pkg dirname v)
          (verifyPackage_body h rec' pkg dirname v)"
  proof (cases "get_prop pkg ''name''")
    case (Inl x)
    then show ?thesis by (simp add: unfold)
  next
    case (Inr nm)
    show ?thesis
    proof (cases "ToString h nm")
      case (Inl x)
      with Inr show ?thesis by (simp add: unfold)
    next
      case s: (Inr s)
      show ?thesis unfolding unfold Inr s sum.case by (rule body)
    qed
  qed
  with e show ?thesis by (rule alike_mono)
qed

lemma verifyPackage_alike:
  assumes fin: "finite (existing h)"
  shows "d \<in> existing h \<Longrightarrow> card (existing h - cache v) < n
         \<Longrightarrow> alike v (verifyPackage n h pkg d v) (verifyPackage (n + k) h pkg d v)"
proof (induction n arbitrary: pkg d v)
  case 0
  then show ?case by simp
next
  case (Suc n)
  have "alike v (verifyPackage_body h (verifyPackage n h) pkg d v)
          (verifyPackage_body h (verifyPackage (n + k) h) pkg d v)"
    by (rule verifyPackage_body_alike [OF fin _ Suc.prems]) (rule Suc.IH)
  then show ?case by simp
qed


lemma verify_alike:
  assumes fin: "finite (existing h)" and v: "card (existing h - cache v) < fuel"
  shows "alike v (verify fuel h name dirname v) (verify (fuel + k) h name dirname v)"
proof (cases "resolve h name dirname")
  case None
  then show ?thesis by (simp add: verify_def)
next
  case (Some moddir)
  then have d: "moddir \<in> existing h" by (rule resolve_existing)
  have tail: "alike w (andThen (debug m (log (ReadFile f) w)) (verifyPackage fuel h pkg moddir))
                (andThen (debug m (log (ReadFile f) w)) (verifyPackage (fuel + k) h pkg moddir))"
    if w: "card (existing h - cache w) < fuel" for w m f pkg
  proof (rule alike_mono [of w "log (ReadFile f) w"])
    show "extends w (log (ReadFile f) w)" by simp
    show "alike (log (ReadFile f) w)
            (andThen (debug m (log (ReadFile f) w)) (verifyPackage fuel h pkg moddir))
            (andThen (debug m (log (ReadFile f) w)) (verifyPackage (fuel + k) h pkg moddir))"
    proof (rule alike_andThen)
      show "alike (log (ReadFile f) w) (debug m (log (ReadFile f) w))
              (debug m (log (ReadFile f) w))"
        by simp
    next
      fix w' assume e: "extends (log (ReadFile f) w) w'"
      have "card (existing h - cache (log (ReadFile f) w)) < fuel" using w by simp
      then have "card (existing h - cache w') < fuel" by (rule card_after [OF fin e])
      with d show "alike w' (verifyPackage fuel h pkg moddir w')
                     (verifyPackage (fuel + k) h pkg moddir w')"
        by (rule verifyPackage_alike [OF fin])
    qed
  qed
  show ?thesis
    unfolding verify_def Some option.case
    apply (simp split: sum.splits)
    apply (intro conjI impI allI)
    apply (rule alike_andThen)
     apply simp
    apply (auto simp: Let_def split: sum.splits intro!: tail card_after [OF fin _ v])
    done
qed

text \<open>
  C4. On a file system with finitely many existing paths, started with more \<open>fuel\<close>
  than there are existing paths outside \<^verbatim>\<open>cache\<close>, in a state where every directory
  has been marked visited at most once: \<^verbatim>\<open>verify\<close> ends (by returning or by an
  exception of a hook or of the code), and with any greater depth it ends alike;
  \<^verbatim>\<open>cache\<close> has only grown and every directory has still been marked at most once;
  \<^verbatim>\<open>verifyPackage\<close> on a directory already in \<^verbatim>\<open>cache\<close> returns at once and changes
  nothing; and \<^verbatim>\<open>verifyPackage\<close> on an existing directory not in \<^verbatim>\<open>cache\<close> ends with
  the directory in \<^verbatim>\<open>cache\<close>, the mark being the first thing it does.
\<close>

theorem verify_terminates_visits_once:
  assumes "finite (existing h)" and "card (existing h - cache v) < fuel"
    and "visited_once v"
  shows "(\<exists>v'. final_state (verify fuel h name dirname v) = Some v'
               \<and> cache v \<subseteq> cache v' \<and> visited_once v')
       \<and> verify (fuel + k) h name dirname v = verify fuel h name dirname v
       \<and> (\<forall>pkg d. d \<in> cache v \<longrightarrow> verifyPackage fuel h pkg d v = Ok v)
       \<and> (\<forall>pkg d. d \<in> existing h \<and> d \<notin> cache v \<longrightarrow>
            (\<exists>v' es. final_state (verifyPackage fuel h pkg d v) = Some v'
                      \<and> d \<in> cache v' \<and> trace v' = trace v @ Visit d # es))"
proof (intro conjI allI impI)
  from verify_alike [OF assms(1,2), of name dirname k]
  have eq: "verify fuel h name dirname v = verify (fuel + k) h name dirname v"
    and g: "good (verify fuel h name dirname v) v"
    unfolding alike_def by blast+
  from eq show "verify (fuel + k) h name dirname v = verify fuel h name dirname v" by simp
  from g assms(3) show "\<exists>v'. final_state (verify fuel h name dirname v) = Some v'
               \<and> cache v \<subseteq> cache v' \<and> visited_once v'"
    by (auto simp: good_def extends_def split: option.splits)
next
  fix pkg d assume "d \<in> cache v"
  moreover from assms(2) obtain n where "fuel = Suc n" by (cases fuel) auto
  ultimately show "verifyPackage fuel h pkg d v = Ok v"
    by (simp add: verifyPackage_body_def)
next
  fix pkg d assume d: "d \<in> existing h \<and> d \<notin> cache v"
  from assms(2) obtain n where n: "fuel = Suc n" by (cases fuel) auto
  define v1 where "v1 = log (Visit d) (v\<lparr>cache := insert d (cache v)\<rparr>)"
  define v2 where "v2 =
    (if hasBinding h d then v1\<lparr>bindings := insert (Path_basename h d) (bindings v1)\<rparr> else v1)"
  have c2: "card (existing h - cache v2) < n"
    using card_after_visit [OF assms(1) _ _ assms(2) [unfolded n], of d] d
    by (simp add: v2_def v1_def)
  have rec: "alike w (verifyPackage n h p x w) (verifyPackage (n + 0) h p x w)"
    if "x \<in> existing h" and "card (existing h - cache w) < n" for p x w
    using that by (rule verifyPackage_alike [OF assms(1)])
  have run: "verifyPackage fuel h pkg d v =
      (case get_prop pkg ''name'' of
         Inl e \<Rightarrow> Raise e v2
       | Inr nm \<Rightarrow>
           (case ToString h nm of
              Inl e \<Rightarrow> Raise e v2
            | Inr s \<Rightarrow>
                andThen (debug (''Verifying package '' @ s @ '' at '' @ d @ ''.'') v2)
                  (\<lambda>v.
                     andThen (for_each (verifyField h (verifyPackage n h) pkg d) fields v)
                       (debug (''Package '' @ s @ '' is valid!'')))))"
    using d unfolding n verifyPackage.simps verifyPackage_body_def Let_def v2_def v1_def
    by simp
  have body: "good (andThen (debug m1 v2)
      (\<lambda>v. andThen (for_each (verifyField h (verifyPackage n h) pkg d) fields v)
             (debug m2))) v2" for m1 m2
  proof (rule good_andThen)
    show "good (debug m1 v2) v2" by simp
  next
    fix w assume ew: "extends v2 w"
    have cw: "card (existing h - cache w) < n" by (rule card_after [OF assms(1) ew c2])
    show "good (andThen (for_each (verifyField h (verifyPackage n h) pkg d) fields w)
                  (debug m2)) w"
    proof (rule good_andThen)
      have "alike w (for_each (verifyField h (verifyPackage n h) pkg d) fields w)
              (for_each (verifyField h (verifyPackage (n + 0) h) pkg d) fields w)"
        by (rule for_each_alike [OF assms(1) _ cw])
           (rule verifyField_alike [OF assms(1) rec])
      then show "good (for_each (verifyField h (verifyPackage n h) pkg d) fields w) w"
        by (simp add: alike_def)
    next
      fix w' assume "extends w w'"
      show "good (debug m2 w') w'" by simp
    qed
  qed
  have "good (verifyPackage fuel h pkg d v) v2"
  proof (cases "get_prop pkg ''name''")
    case (Inl e)
    then show ?thesis by (simp add: run)
  next
    case (Inr nm)
    show ?thesis
    proof (cases "ToString h nm")
      case (Inl e)
      with Inr show ?thesis by (simp add: run)
    next
      case s: (Inr s)
      show ?thesis unfolding run Inr s sum.case by (rule body)
    qed
  qed
  then obtain v' where f: "final_state (verifyPackage fuel h pkg d v) = Some v'"
    and e: "extends v2 v'"
    by (auto simp: good_def split: option.splits)
  have "d \<in> cache v2" and "trace v2 = trace v @ [Visit d]"
    by (simp_all add: v2_def v1_def)
  with e have "d \<in> cache v'" and "\<exists>es. trace v' = trace v @ Visit d # es"
    by (auto simp: extends_def)
  with f show "\<exists>v' es. final_state (verifyPackage fuel h pkg d v) = Some v'
                      \<and> d \<in> cache v' \<and> trace v' = trace v @ Visit d # es"
    by blast
qed


lemma existing_posix_host: "existing (posix_host fs parse valid sat) = fst ` set fs"
proof -
  have "(0 \<le> stat (posix_host fs parse valid sat) d) = (map_of fs d \<noteq> None)" for d
    by (simp add: stat_def posix_host_def split: option.splits node.splits)
  then show ?thesis
    by (auto simp: existing_def map_of_eq_None_iff)
qed

theorem verify_terminates_visits_once_witness:
  "finite (existing host_c)
   \<and> card (existing host_c - cache (Verifier None (Some console_hook) [])) < 9
   \<and> visited_once (Verifier None (Some console_hook) [])
   \<and> (\<exists>v'. final_state (verify 9 host_c ''a'' ''/c'' (Verifier None (Some console_hook) []))
              = Some v' \<and> visited_once v')
   \<and> verify (9 + 1) host_c ''a'' ''/c'' (Verifier None (Some console_hook) [])
       = verify 9 host_c ''a'' ''/c'' (Verifier None (Some console_hook) [])
   \<and> (case verify 9 host_c ''a'' ''/c'' (Verifier None (Some console_hook) []) of
         Ok v \<Rightarrow>
           visits (trace v) = [''/c/node_modules/a'', ''/c/node_modules/b'', ''/c/node_modules/d'']
       | Raise e v \<Rightarrow> False
       | OutOfFuel \<Rightarrow> False)"
proof -
  let ?v = "Verifier None (Some console_hook) []"
  have ex: "existing host_c = fst ` set fs_c"
    unfolding host_c_def by (rule existing_posix_host)
  have fin: "finite (existing host_c)" by (simp add: ex)
  have "card (fst ` set fs_c) \<le> length fs_c"
    by (rule order_trans [OF card_image_le card_length]) simp
  moreover have "length fs_c = 8" by (simp add: fs_c_def)
  ultimately have c: "card (existing host_c - cache ?v) < 9"
    by (simp add: ex Verifier_def)
  have vo: "visited_once ?v" by (simp add: visited_once_def Verifier_def)
  have run: "(case verify 9 host_c ''a'' ''/c'' ?v of
         Ok v \<Rightarrow>
           visits (trace v) = [''/c/node_modules/a'', ''/c/node_modules/b'', ''/c/node_modules/d'']
       | Raise e v \<Rightarrow> False
       | OutOfFuel \<Rightarrow> False)"
    by code_simp
  from verify_terminates_visits_once [OF fin c vo, of "''a''" "''/c''" 1]
  have "(\<exists>v'. final_state (verify 9 host_c ''a'' ''/c'' ?v) = Some v' \<and> visited_once v')"
    and "verify (9 + 1) host_c ''a'' ''/c'' ?v = verify 9 host_c ''a'' ''/c'' ?v"
    by blast+
  with fin c vo run show ?thesis by blast
qed

text \<open>
  C5, as amended. A directory in \<^verbatim>\<open>cache\<close> is not verified again: \<^verbatim>\<open>verifyPackage\<close> on
  it returns at once, with no read, no call of a hook and no change of the instance;
  and a top-level \<^verbatim>\<open>verify\<close> whose package resolves to a directory already in
  \<^verbatim>\<open>cache\<close> (a second call on the same instance) ends with \<^verbatim>\<open>cache\<close> and \<^verbatim>\<open>bindings\<close>
  as they were and no directory newly marked. (The manifest file is read again by
  that second call, and by \<^verbatim>\<open>verifyDeps\<close> each time a dependent resolves to the
  directory.)
\<close>

theorem visited_directory_not_reverified:
  "(d \<in> cache v \<longrightarrow> verifyPackage (Suc fuel) h pkg d v = Ok v)
   \<and> (resolve h name dirname = Some moddir \<and> moddir \<in> cache v \<longrightarrow>
        (\<exists>v'. final_state (verify (Suc fuel) h name dirname v) = Some v'
              \<and> cache v' = cache v \<and> bindings v' = bindings v
              \<and> visits (trace v') = visits (trace v)))"
proof (intro conjI impI)
  assume "d \<in> cache v"
  then show "verifyPackage (Suc fuel) h pkg d v = Ok v"
    by (simp add: verifyPackage_body_def)
next
  assume a: "resolve h name dirname = Some moddir \<and> moddir \<in> cache v"
  define sameS where "sameS w \<longleftrightarrow> moddir \<in> cache w
      \<and> cache w = cache v \<and> bindings w = bindings v
      \<and> visits (trace w) = visits (trace v)" for w :: verifier
  define same where "same r \<longleftrightarrow> (\<exists>v'. final_state r = Some v' \<and> sameS v')" for r
  have ok: "same (Ok w)" and raise: "same (Raise e w)" if "sameS w" for w e
    using that by (simp_all add: same_def)
  have err: "same (error m w)" if "sameS w" for m w
    using that by (auto simp: error_def same_def sameS_def split: option.splits)
  have dbg: "same (andThen (debug m w) f)"
    if "sameS w" and "\<And>w'. sameS w' \<Longrightarrow> same (f w')" for m w f
  proof (cases "debug m w")
    case (Ok w')
    with that(1) have "sameS w'"
      by (auto simp: debug_def sameS_def split: option.splits)
    with that(2) Ok show ?thesis by simp
  next
    case (Raise e w')
    with that(1) have "sameS w'"
      by (auto simp: debug_def sameS_def split: option.splits)
    with Raise show ?thesis by (simp add: raise)
  next
    case OutOfFuel
    then show ?thesis by (simp add: debug_def split: option.splits)
  qed
  have rd: "sameS (log (ReadFile f) w)" if "sameS w" for f w
    using that by (auto simp: sameS_def)
  have vp: "same (verifyPackage (Suc fuel) h p moddir w)" if "sameS w" for p w
    using that ok [OF that] by (auto simp: verifyPackage_body_def sameS_def)
  have v: "sameS v" using a by (simp add: sameS_def)
  have "same (verify (Suc fuel) h name dirname v)"
    using a v unfolding verify_def
    by (auto simp: Let_def split: sum.splits intro!: dbg err ok raise rd vp)
  then show "\<exists>v'. final_state (verify (Suc fuel) h name dirname v) = Some v'
              \<and> cache v' = cache v \<and> bindings v' = bindings v
              \<and> visits (trace v') = visits (trace v)"
    by (auto simp: same_def sameS_def)
qed

theorem visited_directory_not_reverified_witness:
  "(case verify 9 host_c ''a'' ''/c'' (Verifier None (Some console_hook) []) of
      Ok v \<Rightarrow>
        resolve host_c ''a'' ''/c'' = Some ''/c/node_modules/a''
        \<and> ''/c/node_modules/a'' \<in> cache v
        \<and> verifyPackage (Suc 0) host_c JNull ''/c/node_modules/a'' v = Ok v
        \<and> (\<exists>v'. final_state (verify (Suc 0) host_c ''a'' ''/c'' v) = Some v'
                  \<and> cache v' = cache v \<and> bindings v' = bindings v
                  \<and> visits (trace v') = visits (trace v))
    | Raise e v \<Rightarrow> False
    | OutOfFuel \<Rightarrow> False)"
proof -
  have run: "(case verify 9 host_c ''a'' ''/c'' (Verifier None (Some console_hook) []) of
      Ok v \<Rightarrow> ''/c/node_modules/a'' \<in> cache v
    | Raise e v \<Rightarrow> False
    | OutOfFuel \<Rightarrow> False)"
    by code_simp
  have r: "resolve host_c ''a'' ''/c'' = Some ''/c/node_modules/a''"
    by code_simp
  show ?thesis
  proof (cases "verify 9 host_c ''a'' ''/c'' (Verifier None (Some console_hook) [])")
    case (Ok v)
    with run have c: "''/c/node_modules/a'' \<in> cache v" by simp
    from visited_directory_not_reverified [where d = "''/c/node_modules/a''" and v = v
        and fuel = 0 and h = host_c and pkg = JNull and name = "''a''" and dirname = "''/c''"
        and moddir = "''/c/node_modules/a''"] r c Ok
    show ?thesis by simp
  next
    case (Raise e v)
    with run show ?thesis by simp
  next
    case OutOfFuel
    with run show ?thesis by simp
  qed
qed

text \<open>
  C5, as stated, fails. In one run on the cycle, the manifest of \<^verbatim>\<open>a\<close> is read again
  (for the dependency of \<^verbatim>\<open>b\<close> on \<^verbatim>\<open>a\<close>) after \<^verbatim>\<open>a\<close> has been marked visited, and that
  of \<^verbatim>\<open>d\<close> twice; a second \<^verbatim>\<open>verify\<close> on the same instance reads the manifest of \<^verbatim>\<open>a\<close>
  once more.
\<close>

theorem visited_manifest_read_again:
  "returned (verify 9 host_c ''a'' ''/c'' (Verifier None (Some console_hook) []))
   \<and> trace_of (verify 9 host_c ''a'' ''/c'' (Verifier None (Some console_hook) [])) =
       [ReadFile ''/c/node_modules/a/package.json'', Visit ''/c/node_modules/a'',
        ReadFile ''/c/node_modules/b/package.json'', Visit ''/c/node_modules/b'',
        ReadFile ''/c/node_modules/a/package.json'',
        ReadFile ''/c/node_modules/d/package.json'', Visit ''/c/node_modules/d'',
        ReadFile ''/c/node_modules/d/package.json'']
   \<and> trace_of (andThen (verify 9 host_c ''a'' ''/c'' (Verifier None (Some console_hook) []))
                 (verify 9 host_c ''a'' ''/c'')) =
       [ReadFile ''/c/node_modules/a/package.json'', Visit ''/c/node_modules/a'',
        ReadFile ''/c/node_modules/b/package.json'', Visit ''/c/node_modules/b'',
        ReadFile ''/c/node_modules/a/package.json'',
        ReadFile ''/c/node_modules/d/package.json'', Visit ''/c/node_modules/d'',
        ReadFile ''/c/node_modules/d/package.json'',
        ReadFile ''/c/node_modules/a/package.json'']"
  by code_simp

section \<open>The search path\<close>

lemma split_single: "d \<notin> set x \<Longrightarrow> split d x = [x]"
  by (induction x) auto

lemma split_before_delimiter: "d \<notin> set x \<Longrightarrow> split d (x @ d # rest) = x # split d rest"
  by (induction x) auto

lemma split_join:
  "parts \<noteq> [] \<Longrightarrow> \<forall>p \<in> set parts. d \<notin> set p \<Longrightarrow> split d (join [d] parts) = parts"
proof (induction "[d]" parts rule: join.induct)
  case 1
  then show ?case by simp
next
  case (2 x)
  then show ?case by (simp add: split_single)
next
  case (3 x y ys)
  then show ?case by (simp add: split_before_delimiter)
qed

lemma join_empty: "parts \<noteq> [] \<Longrightarrow> join [d] parts = [] \<Longrightarrow> filter (\<lambda>p. p \<noteq> []) parts = []"
  by (induction "[d]" parts rule: join.induct) auto

lemma globalPaths_posix:
  assumes "\<not> win32 h"
  shows "globalPaths h =
         (case NODE_PATH h of
            None \<Rightarrow> []
          | Some node \<Rightarrow> if node = [] then [] else filter (\<lambda>p. p \<noteq> []) (split CHR '':'' node))
         @ home_candidates h @ [prefix_candidate h]"
  using assms
  by (simp add: globalPaths_def home_candidates_def prefix_candidate_def Path_delimiter_def
        Let_def split: option.splits)

lemma nmChars_chars: "map char_of nmChars = rev ''node_modules''"
  by code_simp

lemma nmChars_length: "length nmChars = 12"
  by (simp add: nmChars_def)

lemma nmChars_small: "k < 12 \<Longrightarrow> nmChars ! k < 256"
proof -
  have "\<forall>n \<in> set nmChars. n < 256" by (simp add: nmChars_def)
  moreover assume "k < 12"
  ultimately show ?thesis by (simp add: nmChars_length)
qed

lemma nm_step_index:
  assumes "k \<le> 12"
  shows "nm_step (int k) c =
         (if k < 12 \<and> rev ''node_modules'' ! k = c then int (k + 1) else - 1)"
proof (cases "k < 12")
  case True
  have "rev ''node_modules'' ! k = char_of (nmChars ! k)"
    using True by (simp add: nmChars_chars [symmetric] nmChars_length del: rev.simps)
  moreover have "(nmChars ! k = of_char c) = (char_of (nmChars ! k) = c)"
    using nmChars_small [OF True] by (auto simp: of_char_of)
  ultimately show ?thesis
    using True by (simp add: nm_step_def nmChars_is_def nmChars_length del: rev.simps)
next
  case False
  then show ?thesis by (simp add: nm_step_def nmChars_is_def nmChars_length)
qed

lemma nm_scan_stuck: "foldl nm_step (- 1) cs = - 1"
  by (induction cs) (simp_all add: nm_step_def)

lemma nm_scan:
  "k \<le> 12 \<Longrightarrow>
   foldl nm_step (int k) cs =
   (if k + length cs \<le> 12 \<and> take (length cs) (drop k (rev ''node_modules'')) = cs
    then int (k + length cs) else - 1)"
proof (induction cs arbitrary: k)
  case Nil
  then show ?case by simp
next
  case (Cons c cs)
  show ?case
  proof (cases "k < 12 \<and> rev ''node_modules'' ! k = c")
    case True
    then have "drop k (rev ''node_modules'') = c # drop (Suc k) (rev ''node_modules'')"
      by (simp add: Cons_nth_drop_Suc [symmetric] del: rev.simps)
    moreover from True have "Suc k \<le> 12" by simp
    ultimately show ?thesis
      using True Cons.IH [of "Suc k"] Cons.prems
      by (simp add: nm_step_index del: rev.simps)
  next
    case False
    have "take (length (c # cs)) (drop k (rev ''node_modules'')) \<noteq> c # cs"
      if "k < 12"
    proof -
      from that have "drop k (rev ''node_modules'')
                      = rev ''node_modules'' ! k # drop (Suc k) (rev ''node_modules'')"
        by (simp add: Cons_nth_drop_Suc [symmetric] del: rev.simps)
      with False that show ?thesis by (simp del: rev.simps)
    qed
    moreover have "\<not> k + length (c # cs) \<le> 12" if "\<not> k < 12"
      using that by simp
    ultimately show ?thesis
      using False Cons.prems by (auto simp: nm_step_index nm_scan_stuck simp del: rev.simps)
  qed
qed

lemma nm_scan_segment: "(foldr (\<lambda>c p. nm_step p c) s 0 = 12) = (s = ''node_modules'')"
proof -
  have "foldr (\<lambda>c p. nm_step p c) s 0 = foldl nm_step (int 0) (rev s)"
    by (simp add: foldr_conv_foldl)
  also have "\<dots> = (if length s \<le> 12 \<and> take (length s) (rev ''node_modules'') = rev s
                  then int (length s) else - 1)"
    by (subst nm_scan) (simp_all del: rev.simps)
  finally have "(foldr (\<lambda>c p. nm_step p c) s 0 = 12)
                = (length s = 12 \<and> take (length s) (rev ''node_modules'') = rev s)"
    by (auto simp del: rev.simps)
  also have "\<dots> = (rev ''node_modules'' = rev s)"
    by (auto simp del: rev.simps)
  also have "\<dots> = (s = ''node_modules'')"
    by (auto simp del: rev.simps)
  finally show ?thesis .
qed


lemma of_char_slash: "((of_char c :: nat) = 47) = (c = CHR ''/'')"
proof -
  have "(of_char (CHR ''/'') :: nat) = 47" by simp
  then have "((of_char c :: nat) = 47) = ((of_char c :: nat) = of_char (CHR ''/''))" by simp
  then show ?thesis by (simp only: of_char_eq_iff)
qed

lemma posix_loop_segment_chars:
  "CHR ''/'' \<notin> set t \<Longrightarrow>
   posix_loop (A @ t @ B) (length A + length t) (paths, L, p) =
   posix_loop (A @ t @ B) (length A) (paths, L, foldr (\<lambda>c p. nm_step p c) t p)"
proof (induction t arbitrary: p B rule: rev_induct)
  case Nil
  then show ?case by simp
next
  case (snoc c t)
  let ?from = "A @ t @ c # B"
  have nth: "?from ! (length A + length t) = c"
    by (simp add: nth_append)
  have lt: "length A + length t < length ?from"
    by simp
  have at: "charCodeAt ?from (int (length A + length t)) = Some (of_char c)"
    unfolding charCodeAt_def nat_int using nth lt by simp
  from snoc.prems have "c \<noteq> CHR ''/''" by auto
  then have "(of_char c :: nat) \<noteq> 47" by (simp add: of_char_slash)
  with at have step: "posix_step ?from (length A + length t) (paths, L, p)
                      = (paths, L, nm_step p c)"
    by (simp add: posix_step_def nm_step_def Let_def)
  have "posix_loop (A @ (t @ [c]) @ B) (length A + length (t @ [c])) (paths, L, p)
        = posix_loop ?from (Suc (length A + length t)) (paths, L, p)"
    by simp
  also have "\<dots> = posix_loop ?from (length A + length t) (paths, L, nm_step p c)"
    by (simp only: posix_loop.simps step)
  also have "\<dots> = posix_loop ?from (length A)
                     (paths, L, foldr (\<lambda>c p. nm_step p c) t (nm_step p c))"
    using snoc.prems by (intro snoc.IH) simp
  finally show ?case by simp
qed

lemma posix_loop_segment:
  assumes "segment s"
  shows "posix_loop (pre @ CHR ''/'' # s @ rest) (length pre + 1 + length s)
           (paths, length pre + 1 + length s, 0) =
         posix_loop (pre @ CHR ''/'' # s @ rest) (length pre)
           (paths @ (if s = ''node_modules'' then []
                     else [(pre @ CHR ''/'' # s) @ ''/node_modules'']),
            length pre, 0)"
proof -
  let ?from = "pre @ CHR ''/'' # s @ rest"
  let ?L = "length pre + 1 + length s"
  from assms have ns: "CHR ''/'' \<notin> set s" by (simp add: segment_def)
  have "posix_loop ?from ?L (paths, ?L, 0)
        = posix_loop ((pre @ [CHR ''/'']) @ s @ rest) (length (pre @ [CHR ''/'']) + length s)
            (paths, ?L, 0)"
    by simp
  also have "\<dots> = posix_loop ((pre @ [CHR ''/'']) @ s @ rest) (length (pre @ [CHR ''/'']))
                     (paths, ?L, foldr (\<lambda>c p. nm_step p c) s 0)"
    by (rule posix_loop_segment_chars [OF ns])
  also have "\<dots> = posix_loop ?from (Suc (length pre))
                     (paths, ?L, foldr (\<lambda>c p. nm_step p c) s 0)"
    by simp
  also have "\<dots> = posix_loop ?from (length pre)
                     (posix_step ?from (length pre)
                        (paths, ?L, foldr (\<lambda>c p. nm_step p c) s 0))"
    by simp
  also have "posix_step ?from (length pre) (paths, ?L, foldr (\<lambda>c p. nm_step p c) s 0)
             = (paths @ (if s = ''node_modules'' then []
                         else [(pre @ CHR ''/'' # s) @ ''/node_modules'']),
                length pre, 0)"
  proof -
    have "charCodeAt ?from (int (length pre)) = Some 47"
      by (simp add: charCodeAt_def nth_append)
    moreover have "take ?L ?from = pre @ CHR ''/'' # s" by simp
    ultimately show ?thesis
      using nm_scan_segment [of s]
      by (simp add: posix_step_def Let_def nmLen_def del: append.simps)
  qed
  finally show ?thesis .
qed

lemma ancestors_Nil [simp]: "ancestors [] = []"
  by (simp add: ancestors.simps)

lemma ancestors_snoc [simp]: "ancestors (segs @ [s]) = (segs @ [s]) # ancestors segs"
  by (subst ancestors.simps) simp

lemma abs_path_snoc: "abs_path (segs @ [s]) = concat (map ((#) CHR ''/'') segs) @ CHR ''/'' # s"
  by (simp add: abs_path_def)

lemma ancestor_candidates_snoc:
  "ancestor_candidates (segs @ [s]) =
   (if s = ''node_modules'' then []
    else [(concat (map ((#) CHR ''/'') segs) @ CHR ''/'' # s) @ ''/node_modules''])
   @ ancestor_candidates segs"
  by (simp add: ancestor_candidates_def abs_path_snoc del: append.simps)

lemma posix_loop_path:
  "\<forall>s \<in> set segs. segment s \<Longrightarrow>
   posix_loop (concat (map ((#) CHR ''/'') segs) @ rest)
     (length (concat (map ((#) CHR ''/'') segs)))
     (paths, length (concat (map ((#) CHR ''/'') segs)), 0) =
   (paths @ ancestor_candidates segs, 0, 0)"
proof (induction segs arbitrary: paths rest rule: rev_induct)
  case Nil
  then show ?case by (simp add: ancestor_candidates_def)
next
  case (snoc s segs)
  let ?pre = "concat (map ((#) CHR ''/'') segs)"
  from snoc.prems have s: "segment s" and segs: "\<forall>s \<in> set segs. segment s" by simp_all
  have len: "length (concat (map ((#) CHR ''/'') (segs @ [s]))) = length ?pre + 1 + length s"
    by simp
  have "posix_loop (concat (map ((#) CHR ''/'') (segs @ [s])) @ rest)
          (length (concat (map ((#) CHR ''/'') (segs @ [s]))))
          (paths, length (concat (map ((#) CHR ''/'') (segs @ [s]))), 0)
        = posix_loop (?pre @ CHR ''/'' # s @ rest) (length ?pre + 1 + length s)
            (paths, length ?pre + 1 + length s, 0)"
    unfolding len by simp
  also have "\<dots> = posix_loop (?pre @ CHR ''/'' # s @ rest) (length ?pre)
           (paths @ (if s = ''node_modules'' then []
                     else [(?pre @ CHR ''/'' # s) @ ''/node_modules'']),
            length ?pre, 0)"
    by (rule posix_loop_segment [OF s])
  also have "\<dots> = ((paths @ (if s = ''node_modules'' then []
                     else [(?pre @ CHR ''/'' # s) @ ''/node_modules'']))
                    @ ancestor_candidates segs, 0, 0)"
    by (rule snoc.IH [OF segs])
  finally show ?case
    by (simp only: ancestor_candidates_snoc append_assoc)
qed

lemma getModulePaths_posix_ancestors:
  assumes "Path_resolve h [from] = abs_path segs" and "\<forall>s \<in> set segs. segment s"
  shows "getModulePaths_posix h from =
         ancestor_candidates segs @ [''/node_modules''] @ globalPaths h"
proof (cases "segs = []")
  case True
  with assms(1) show ?thesis
    by (simp add: getModulePaths_posix_def abs_path_def ancestor_candidates_def)
next
  case False
  then obtain s segs' where segs: "segs = s # segs'" by (cases segs) auto
  with assms(2) have "s \<noteq> []" by (simp add: segment_def)
  then have "length (abs_path segs) \<ge> 2"
    by (cases s) (simp_all add: segs abs_path_def)
  then have not_root: "abs_path segs \<noteq> ''/''" by auto
  have path: "abs_path segs = concat (map ((#) CHR ''/'') segs)"
    using False by (simp add: abs_path_def)
  have "posix_loop (abs_path segs) (length (abs_path segs)) ([], length (abs_path segs), 0)
        = ([] @ ancestor_candidates segs, 0, 0)"
    unfolding path using posix_loop_path [OF assms(2), of "[]" "[]"] by simp
  with not_root assms(1) show ?thesis
    by (simp add: getModulePaths_posix_def Let_def)
qed

text \<open>
  C6. On a platform other than \<^verbatim>\<open>win32\<close>, when \<^verbatim>\<open>Path.resolve(from)\<close> is the path of the
  segments \<open>segs\<close>, the candidate list is: for each ancestor, deepest first,
  \<^verbatim>\<open><ancestor>/node_modules\<close> unless the ancestor's last segment is \<^verbatim>\<open>node_modules\<close>
  itself; then \<^verbatim>\<open>/node_modules\<close>; then the entries of \<^verbatim>\<open>NODE_PATH\<close> (what was joined
  with colons) in order, the empty ones left out; then the two directories of the home
  directory, if \<^verbatim>\<open>HOME\<close> is set; then \<^verbatim>\<open>lib/node\<close> of the installation prefix.
\<close>

theorem getModulePaths_posix_candidates:
  assumes "\<not> win32 h" and "Path_resolve h [from] = abs_path segs"
    and "\<forall>s \<in> set segs. segment s"
  shows "(NODE_PATH h = None \<longrightarrow>
            getModulePaths h from =
            ancestor_candidates segs @ [''/node_modules'']
            @ home_candidates h @ [prefix_candidate h])
       \<and> (\<forall>parts. parts \<noteq> [] \<and> (\<forall>p \<in> set parts. CHR '':'' \<notin> set p)
                   \<and> NODE_PATH h = Some (join '':'' parts) \<longrightarrow>
            getModulePaths h from =
            ancestor_candidates segs @ [''/node_modules'']
            @ filter (\<lambda>p. p \<noteq> []) parts
            @ home_candidates h @ [prefix_candidate h])"
proof (intro conjI allI impI)
  assume "NODE_PATH h = None"
  then show "getModulePaths h from =
            ancestor_candidates segs @ [''/node_modules'']
            @ home_candidates h @ [prefix_candidate h]"
    using assms(1)
    by (simp add: getModulePaths_def getModulePaths_posix_ancestors [OF assms(2,3)]
          globalPaths_posix)
next
  fix parts
  assume a: "parts \<noteq> [] \<and> (\<forall>p \<in> set parts. CHR '':'' \<notin> set p)
             \<and> NODE_PATH h = Some (join '':'' parts)"
  then have "split CHR '':'' (join '':'' parts) = parts"
    by (intro split_join) simp_all
  moreover have "filter (\<lambda>p. p \<noteq> []) parts = []" if "join '':'' parts = []"
    using a that by (intro join_empty [of parts "CHR '':''"]) simp_all
  ultimately show "getModulePaths h from =
            ancestor_candidates segs @ [''/node_modules'']
            @ filter (\<lambda>p. p \<noteq> []) parts
            @ home_candidates h @ [prefix_candidate h]"
    using assms(1) a
    by (simp add: getModulePaths_def getModulePaths_posix_ancestors [OF assms(2,3)]
          globalPaths_posix)
qed


theorem getModulePaths_posix_candidates_witness:
  "\<not> win32 host_n
   \<and> Path_resolve host_n [''/p/node_modules/xnode_modules/lib/'']
       = abs_path [''p'', ''node_modules'', ''xnode_modules'', ''lib'']
   \<and> list_all segment [''p'', ''node_modules'', ''xnode_modules'', ''lib'']
   \<and> NODE_PATH host_n = Some (join '':'' [''/x'', [], ''/y''])
   \<and> getModulePaths host_n ''/p/node_modules/xnode_modules/lib/'' =
       [''/p/node_modules/xnode_modules/lib/node_modules'',
        ''/p/node_modules/xnode_modules/node_modules'',
        ''/p/node_modules'',
        ''/node_modules'',
        ''/x'', ''/y'',
        ''/home/u/.node_modules'', ''/home/u/.node_libraries'',
        ''/usr/local/lib/node'']
   \<and> NODE_PATH host_p = None
   \<and> getModulePaths host_p ''/'' =
       [''/node_modules'', ''/home/u/.node_modules'', ''/home/u/.node_libraries'',
        ''/usr/local/lib/node'']"
proof -
  let ?segs = "[''p'', ''node_modules'', ''xnode_modules'', ''lib'']"
  let ?parts = "[''/x'', [], ''/y'']"
  have w: "\<not> win32 host_n" "\<not> win32 host_p"
    by code_simp+
  have r: "Path_resolve host_n [''/p/node_modules/xnode_modules/lib/''] = abs_path ?segs"
    "Path_resolve host_p [''/''] = abs_path []"
    by code_simp+
  have s: "\<forall>s \<in> set ?segs. segment s" "\<forall>s \<in> set ([] :: string list). segment s"
    by (simp_all add: segment_def)
  have n: "NODE_PATH host_n = Some (join '':'' ?parts)" "NODE_PATH host_p = None"
    by code_simp+
  have p: "?parts \<noteq> [] \<and> (\<forall>p \<in> set ?parts. CHR '':'' \<notin> set p)"
    by simp
  have e1: "ancestor_candidates ?segs @ [''/node_modules''] @ filter (\<lambda>p. p \<noteq> []) ?parts
            @ home_candidates host_n @ [prefix_candidate host_n] =
       [''/p/node_modules/xnode_modules/lib/node_modules'',
        ''/p/node_modules/xnode_modules/node_modules'',
        ''/p/node_modules'',
        ''/node_modules'',
        ''/x'', ''/y'',
        ''/home/u/.node_modules'', ''/home/u/.node_libraries'',
        ''/usr/local/lib/node'']"
    by code_simp
  have e2: "ancestor_candidates [] @ [''/node_modules'']
            @ home_candidates host_p @ [prefix_candidate host_p] =
       [''/node_modules'', ''/home/u/.node_modules'', ''/home/u/.node_libraries'',
        ''/usr/local/lib/node'']"
    by code_simp
  from getModulePaths_posix_candidates [OF w(1) r(1) s(1)] p n(1)
  have "getModulePaths host_n ''/p/node_modules/xnode_modules/lib/'' =
        ancestor_candidates ?segs @ [''/node_modules''] @ filter (\<lambda>p. p \<noteq> []) ?parts
        @ home_candidates host_n @ [prefix_candidate host_n]"
    by blast
  moreover from getModulePaths_posix_candidates [OF w(2) r(2) s(2)] n(2)
  have "getModulePaths host_p ''/'' =
        ancestor_candidates [] @ [''/node_modules'']
        @ home_candidates host_p @ [prefix_candidate host_p]"
    by blast
  ultimately show ?thesis
    using w(1) r(1) s(1) n by (simp only: e1 e2 simp_thms list_all_iff)
qed

text \<open>
  The model of \<^verbatim>\<open>path.resolve\<close> used for the concrete hosts returns such a path for
  every argument list.
\<close>

lemma split_not_Nil: "split d x \<noteq> []"
  by (induction x) (simp_all split: list.splits)

lemma split_pieces: "s \<in> set (split d x) \<Longrightarrow> d \<notin> set s"
proof (induction x arbitrary: s)
  case Nil
  then show ?case by simp
next
  case (Cons c x)
  show ?case
  proof (cases "c = d")
    case True
    with Cons.prems have "s = [] \<or> s \<in> set (split d x)" by simp
    with Cons.IH show ?thesis by auto
  next
    case False
    obtain y ys where y: "split d x = y # ys"
      using split_not_Nil [of d x] by (cases "split d x") simp_all
    from Cons.prems False y have "s = c # y \<or> s \<in> set ys" by simp
    moreover have "d \<notin> set y" by (rule Cons.IH) (simp add: y)
    moreover have "d \<notin> set s" if "s \<in> set ys" by (rule Cons.IH) (simp add: y that)
    ultimately show ?thesis using False by auto
  qed
qed

lemma normalize_segs_segments:
  "\<forall>s \<in> set ss. CHR ''/'' \<notin> set s \<Longrightarrow> \<forall>s \<in> set acc. segment s
   \<Longrightarrow> \<forall>s \<in> set (normalize_segs ss acc). segment s"
proof (induction ss arbitrary: acc)
  case Nil
  then show ?case by simp
next
  case (Cons s ss)
  from Cons.prems(1) have ss: "\<forall>s \<in> set ss. CHR ''/'' \<notin> set s" and s: "CHR ''/'' \<notin> set s"
    by simp_all
  have tl: "\<forall>s \<in> set (case acc of [] \<Rightarrow> [] | a # as \<Rightarrow> as). segment s"
    using Cons.prems(2) by (cases acc) simp_all
  have push: "\<forall>t \<in> set (s # acc). segment t" if "s \<noteq> []"
    using Cons.prems(2) s that by (simp add: segment_def)
  show ?case
  proof (cases "s = [] \<or> s = ''.''")
    case True
    then show ?thesis using Cons.IH [OF ss Cons.prems(2)] by auto
  next
    case False
    show ?thesis
    proof (cases "s = ''..''")
      case True
      then show ?thesis using Cons.IH [OF ss tl] by simp
    next
      case dots: False
      from False have "s \<noteq> []" by simp
      from Cons.IH [OF ss push [OF this]] False dots show ?thesis by simp
    qed
  qed
qed

lemma posix_resolve_normal:
  "\<exists>segs. posix_resolve args = abs_path segs \<and> (\<forall>s \<in> set segs. segment s)"
proof -
  let ?segs = "normalize_segs (split CHR ''/'' (join_args ''/'' args)) []"
  have "\<forall>s \<in> set (split CHR ''/'' (join_args ''/'' args)). CHR ''/'' \<notin> set s"
    using split_pieces by blast
  then have "\<forall>s \<in> set ?segs. segment s"
    by (rule normalize_segs_segments) simp
  then show ?thesis
    unfolding posix_resolve_def by blast
qed

end
